theory Spec2Isabelle
  imports Main "HOL-Library.Word"
begin

unbundle bit_operations_syntax

section \<open>Machine types and the error taxonomy (error.h)\<close>

text \<open>
  The kernel is compiled for RV64: \<open>long\<close>, \<open>unsigned long\<close>, \<open>size_t\<close>,
  \<open>unsigned long long\<close> and pointers are 64 bits wide, \<open>int\<close> and \<open>unsigned\<close>
  are 32 bits wide. A signed value is a word that is read with \<open>sint\<close> and compared with
  \<open><s\<close>; a function that returns \<open>-EINVAL\<close> returns the word \<open>- EINVAL\<close>.
\<close>

type_synonym u8 = "8 word"
type_synonym u16 = "16 word"
type_synonym u32 = "32 word"
type_synonym u64 = "64 word"

text \<open>
  The error numbers are macros for small integers; they are used at type \<open>int\<close>
  (32-bit word), \<open>long\<close> (64-bit word) and, where a result is kept as its mathematical
  value, \<open>int\<close>.
\<close>

definition EINVAL :: "'a::ring_1" where "EINVAL = 1"
definition EBUSY :: "'a::ring_1" where "EBUSY = 2"
definition ENOTSUP :: "'a::ring_1" where "ENOTSUP = 3"
definition EBADFD :: "'a::ring_1" where "EBADFD = 9"
definition EMTHR :: "'a::ring_1" where "EMTHR = 12"
definition ENOMEM :: "'a::ring_1" where "ENOMEM = 14"
definition EPIPE :: "'a::ring_1" where "EPIPE = 15"

definition IOCTL_GETBLKSZ :: u32 where "IOCTL_GETBLKSZ = 0"
definition IOCTL_GETEND :: u32 where "IOCTL_GETEND = 2"
definition IOCTL_SETEND :: u32 where "IOCTL_SETEND = 3"
definition IOCTL_GETPOS :: u32 where "IOCTL_GETPOS = 4"
definition IOCTL_SETPOS :: u32 where "IOCTL_SETPOS = 5"

definition PAGE_SIZE :: nat where "PAGE_SIZE = 4096"

section \<open>The memory-buffer endpoint (io.c: struct memio)\<close>

text \<open>
  \<open>struct memio\<close> holds a pointer to a block of memory and its size. The block is the
  byte list \<open>mbuf\<close>; \<open>msize\<close> is the \<open>size\<close> field, which \<open>IOCTL_SETEND\<close> may lower
  below the length of the block.
\<close>

record memio =
  mbuf :: "u8 list"
  msize :: u64

text \<open>
  \<open>memio_readat\<close> returns the \<open>long\<close> result together with the bytes that
  \<open>memcpy\<close> stores in the caller's buffer. The sum \<open>pos + bufsz\<close> is computed in
  \<open>unsigned long long\<close>, and the truncated size is converted back to \<open>long\<close>.
\<close>

definition memio_readat :: "memio \<Rightarrow> u64 \<Rightarrow> u64 \<Rightarrow> u64 \<times> u8 list" where
  "memio_readat mio pos bufsz =
     (if msize mio \<le> pos \<or> bufsz <s 0 then (- EINVAL, [])
      else let bufsz' = (if msize mio < pos + bufsz then msize mio - pos else bufsz)
           in (bufsz', take (unat bufsz') (drop (unat pos) (mbuf mio))))"

text \<open>\<open>memio_writeat\<close> returns the result and the endpoint with the bytes stored.\<close>

definition memio_writeat :: "memio \<Rightarrow> u64 \<Rightarrow> u8 list \<Rightarrow> u64 \<Rightarrow> u64 \<times> memio" where
  "memio_writeat mio pos src len =
     (if msize mio \<le> pos \<or> len <s 0 then (- EINVAL, mio)
      else let len' = (if msize mio < pos + len then msize mio - pos else len)
           in (len', mio\<lparr>mbuf := take (unat pos) (mbuf mio) @ take (unat len') src
                                   @ drop (unat pos + unat len') (mbuf mio)\<rparr>))"

text \<open>
  \<open>memio_cntl\<close> returns the \<open>int\<close> result, the endpoint, and the value stored through
  \<open>arg\<close> when the command writes one (\<open>IOCTL_GETEND\<close>). The argument of
  \<open>IOCTL_SETEND\<close> is the value read through \<open>arg\<close>.
\<close>

definition memio_cntl :: "memio \<Rightarrow> u32 \<Rightarrow> u64 \<Rightarrow> u32 \<times> memio \<times> u64 option" where
  "memio_cntl mio cmd arg =
     (if cmd = IOCTL_GETBLKSZ then (1, mio, None)
      else if cmd = IOCTL_GETEND then (0, mio, Some (msize mio))
      else if cmd = IOCTL_SETEND then
        (if msize mio < arg then (- EINVAL, mio, None)
         else (0, mio\<lparr>msize := arg\<rparr>, None))
      else (- ENOTSUP, mio, None))"

section \<open>Pipes (io.c: struct pipe, pipe\_read, pipe\_write)\<close>

text \<open>
  A pipe is one page used as a ring, with the index \<open>head\<close> of the next byte to write
  and the index \<open>tail\<close> of the next byte to read. \<open>create_pipe\<close> zero-fills the
  struct, and the only assignments to the two indices store a value reduced modulo
  \<open>PIPE_BUFSZ\<close>, so the \<open>int\<close> fields never hold a negative value and are modelled
  as \<open>nat\<close>. The two condition variables only park and wake threads: a call of
  \<open>condition_wait\<close> is the outcome "blocked" below, which carries what the loop needs to
  go on when the thread is woken and tests the loop condition again.
\<close>

definition PIPE_BUFSZ :: nat where "PIPE_BUFSZ = PAGE_SIZE"

record pipe =
  pbuf :: "u8 list"
  head :: nat
  tail :: nat
  closed_read :: bool
  closed_write :: bool

text \<open>
  \<open>RReturned r dst\<close>: \<open>pipe_read\<close> returns \<open>r\<close> with the bytes \<open>dst\<close> stored in
  the caller's buffer. \<open>RBlocked len dst\<close>: it waits on \<open>readable\<close> with \<open>len\<close>
  bytes still wanted and \<open>dst\<close> read so far.
\<close>

datatype read_outcome = RReturned int "u8 list" | RBlocked nat "u8 list"

fun pipe_read_loop :: "pipe \<Rightarrow> nat \<Rightarrow> u8 list \<Rightarrow> pipe \<times> read_outcome" where
  "pipe_read_loop p 0 dst = (p, RReturned (int (length dst)) dst)"
| "pipe_read_loop p (Suc len) dst =
     (if head p = tail p then
        (if closed_write p
         then (p, RReturned (if 0 < length dst then int (length dst) else 0) dst)
         else (p, RBlocked (Suc len) dst))
      else pipe_read_loop (p\<lparr>tail := (tail p + 1) mod PIPE_BUFSZ\<rparr>) len
             (dst @ [pbuf p ! tail p]))"

definition pipe_read :: "pipe \<Rightarrow> nat \<Rightarrow> pipe \<times> read_outcome" where
  "pipe_read p len = pipe_read_loop p len []"

text \<open>
  \<open>WReturned r\<close>: \<open>pipe_write\<close> returns \<open>r\<close>. \<open>WBlocked tot src\<close>: it waits on
  \<open>writable\<close> after buffering \<open>tot\<close> bytes (the local \<open>total\<close>), with the bytes \<open>src\<close> still to write.
\<close>

datatype write_outcome = WReturned int | WBlocked nat "u8 list"

fun pipe_write_loop :: "pipe \<Rightarrow> u8 list \<Rightarrow> nat \<Rightarrow> pipe \<times> write_outcome" where
  "pipe_write_loop p [] tot = (p, WReturned (int tot))"
| "pipe_write_loop p (b # src) tot =
     (if (head p + 1) mod PIPE_BUFSZ = tail p then
        (if closed_read p then (p, WReturned (- EPIPE)) else (p, WBlocked tot (b # src)))
      else pipe_write_loop
             (p\<lparr>pbuf := (pbuf p)[head p := b], head := (head p + 1) mod PIPE_BUFSZ\<rparr>)
             src (Suc tot))"

definition pipe_write :: "pipe \<Rightarrow> u8 list \<Rightarrow> pipe \<times> write_outcome" where
  "pipe_write p src = pipe_write_loop p src 0"

text \<open>The pipe \<open>create_pipe\<close> builds: a fresh page and a zero-filled struct.\<close>

definition create_pipe :: "u8 list \<Rightarrow> pipe" where
  "create_pipe page = \<lparr>pbuf = page, head = 0, tail = 0,
                         closed_read = False, closed_write = False\<rparr>"

text \<open>
  \<open>pipe_close\<close> on a writer endpoint sets \<open>closed_write\<close>, on a reader endpoint
  \<open>closed_read\<close>.
\<close>

definition pipe_close :: "pipe \<Rightarrow> bool \<Rightarrow> pipe" where
  "pipe_close p is_writer =
     (if is_writer then p\<lparr>closed_write := True\<rparr> else p\<lparr>closed_read := True\<rparr>)"

text \<open>
  Ghost notions for the statements: the number of unread bytes, the unread bytes in the
  order they will be read, and the shape of a pipe that the code maintains.
\<close>

definition unread :: "pipe \<Rightarrow> nat" where
  "unread p = (head p + PIPE_BUFSZ - tail p) mod PIPE_BUFSZ"

definition contents :: "pipe \<Rightarrow> u8 list" where
  "contents p = map (\<lambda>i. pbuf p ! ((tail p + i) mod PIPE_BUFSZ)) [0..<unread p]"

definition pipe_ok :: "pipe \<Rightarrow> bool" where
  "pipe_ok p \<longleftrightarrow> length (pbuf p) = PIPE_BUFSZ \<and> head p < PIPE_BUFSZ \<and> tail p < PIPE_BUFSZ"

definition room :: "pipe \<Rightarrow> nat" where
  "room p = PIPE_BUFSZ - 1 - unread p"

section \<open>The physical page allocator (memory.c) and the heap it takes nodes from (heap0.c)\<close>

text \<open>
  The free list is a singly linked list of \<open>struct page_chunk\<close>; the list of the model
  is the chain of \<open>next\<close> pointers from \<open>free_chunk_list\<close>.
\<close>

record page_chunk =
  first_ppn :: u64
  pagecnt :: u64

definition PAGE_ORDER :: nat where "PAGE_ORDER = 12"

definition pageptr :: "u64 \<Rightarrow> u64" where
  "pageptr n = push_bit PAGE_ORDER n"

definition pagenum :: "u64 \<Rightarrow> u64" where
  "pagenum p = drop_bit PAGE_ORDER p"

text \<open>
  The best-fit search of \<open>alloc_phys_pages\<close>: one pass over the list that keeps the first
  chunk seen with at least \<open>cnt\<close> pages and fewer pages than the best so far. The best
  chunk is kept with its position in the list (the code keeps the pointer to it and the
  pointer to the link that leads to it).
\<close>

fun best_fit :: "page_chunk list \<Rightarrow> u64 \<Rightarrow> nat \<Rightarrow> (nat \<times> page_chunk) option
                   \<Rightarrow> (nat \<times> page_chunk) option" where
  "best_fit [] cnt i best = best"
| "best_fit (c # cs) cnt i best =
     best_fit cs cnt (Suc i)
       (if cnt \<le> pagecnt c \<and> (case best of None \<Rightarrow> True | Some (j, b) \<Rightarrow> pagecnt c < pagecnt b)
        then Some (i, c) else best)"

text \<open>
  \<open>alloc_phys_pages\<close> returns the new free list and the pointer (\<open>NULL\<close> is 0). The
  \<open>unsigned int\<close> count is converted to \<open>unsigned long\<close> where it meets \<open>pagecnt\<close>.
  \<open>kfree(best)\<close> only marks the node in the heap, which never reuses memory.
\<close>

definition alloc_phys_pages :: "page_chunk list \<Rightarrow> u32 \<Rightarrow> page_chunk list \<times> u64" where
  "alloc_phys_pages free_chunk_list cnt =
     (if cnt = 0 then (free_chunk_list, 0)
      else case best_fit free_chunk_list (ucast cnt) 0 None of
        None \<Rightarrow> (free_chunk_list, 0)
      | Some (i, best) \<Rightarrow>
          (if pagecnt best = ucast cnt
           then (take i free_chunk_list @ drop (Suc i) free_chunk_list, pageptr (first_ppn best))
           else (free_chunk_list[i := best\<lparr>first_ppn := first_ppn best + ucast cnt,
                                             pagecnt := pagecnt best - ucast cnt\<rparr>],
                 pageptr (first_ppn best))))"

definition alloc_phys_page :: "page_chunk list \<Rightarrow> page_chunk list \<times> u64" where
  "alloc_phys_page free_chunk_list = alloc_phys_pages free_chunk_list 1"

text \<open>
  The heap is the region between \<open>heap_low\<close> and \<open>heap_end\<close>; allocation moves
  \<open>heap_end\<close> down, and when the region is too small \<open>heap_malloc_actual\<close> takes a page
  from the page allocator. It does not test the page pointer: with \<open>NULL\<close> it writes the
  block header through a pointer computed from \<open>NULL\<close>, which is the outcome
  \<open>WildStore\<close>.
\<close>

record heap =
  heap_low :: u64
  heap_end :: u64

datatype 'a kresult = Returns 'a | Panics | WildStore

definition HEAP_ALIGN :: u64 where "HEAP_ALIGN = 16"
definition HEAP_ALLOC_MAX :: u64 where "HEAP_ALLOC_MAX = 4000"
definition heap_alloc_header_size :: u64 where "heap_alloc_header_size = 16"

definition ROUND_UP :: "u64 \<Rightarrow> u64 \<Rightarrow> u64" where
  "ROUND_UP n k = (n + k - 1) div k * k"

definition heap_malloc_actual ::
    "heap \<Rightarrow> page_chunk list \<Rightarrow> u64 \<Rightarrow> (heap \<times> page_chunk list \<times> u64) kresult" where
  "heap_malloc_actual hp fl size0 =
     (if size0 = 0 then Returns (hp, fl, 0)
      else let sz = ROUND_UP size0 HEAP_ALIGN in
        if HEAP_ALLOC_MAX < sz then Panics
        else if sz + heap_alloc_header_size \<le> heap_end hp - heap_low hp then
          (let ptr = heap_end hp - sz
           in Returns (hp\<lparr>heap_end := ptr - heap_alloc_header_size\<rparr>, fl, ptr))
        else if 4096 - heap_alloc_header_size < sz then Panics
        else
          (let (fl', newpage) = alloc_phys_page fl;
               ptr = newpage + 4096 - sz;
               leftover = 4096 - sz - heap_alloc_header_size;
               hp' = (if heap_end hp - heap_low hp < leftover
                      then hp\<lparr>heap_end := ptr - heap_alloc_header_size, heap_low := newpage\<rparr>
                      else hp)
           in if newpage = 0 then WildStore else Returns (hp', fl', ptr)))"

definition kmalloc :: "heap \<Rightarrow> page_chunk list \<Rightarrow> u64 \<Rightarrow> (heap \<times> page_chunk list \<times> u64) kresult" where
  "kmalloc hp fl size0 = heap_malloc_actual hp fl size0"

definition sizeof_page_chunk :: u64 where "sizeof_page_chunk = 24"

text \<open>
  \<open>free_phys_pages\<close> allocates a node with \<open>kmalloc\<close> and links it at the head of the
  list. \<open>kmalloc\<close> is called with a non-zero size, so it does not return \<open>NULL\<close>.
\<close>

definition free_phys_pages ::
    "heap \<Rightarrow> page_chunk list \<Rightarrow> u64 \<Rightarrow> u32 \<Rightarrow> (heap \<times> page_chunk list) kresult" where
  "free_phys_pages hp free_chunk_list pp cnt =
     (if pp = 0 \<or> cnt = 0 then Returns (hp, free_chunk_list)
      else case kmalloc hp free_chunk_list sizeof_page_chunk of
        Panics \<Rightarrow> Panics
      | WildStore \<Rightarrow> WildStore
      | Returns (hp', fl', node) \<Rightarrow>
          Returns (hp', \<lparr>first_ppn = pagenum pp, pagecnt = ucast cnt\<rparr> # fl'))"

text \<open>\<open>free_phys_page_count\<close> without the wrap-around of its \<open>unsigned long\<close> sum.\<close>

definition free_pages :: "page_chunk list \<Rightarrow> nat" where
  "free_pages fl = sum_list (map (\<lambda>c. unat (pagecnt c)) fl)"

text \<open>
  Whether \<open>kmalloc\<close> of a list node has to take a page from the page allocator, as
  \<open>heap_malloc_actual\<close> decides it (a node of 24 bytes is rounded up to 32).
\<close>

definition heap_takes_page :: "heap \<Rightarrow> bool" where
  "heap_takes_page hp \<longleftrightarrow> \<not> (48 \<le> heap_end hp - heap_low hp)"

text \<open>
  Chunks that lie in a physical address space of \<open>2^64\<close> bytes and do not contain page
  0, as every range of RAM does; the page numbers of a chunk and of a range given to
  \<open>free_phys_pages\<close>; chunks that share no page.
\<close>

definition chunk_ok :: "page_chunk \<Rightarrow> bool" where
  "chunk_ok c \<longleftrightarrow> 0 < unat (first_ppn c) \<and> unat (first_ppn c) + unat (pagecnt c) \<le> 2 ^ 52"

definition chunk_pages :: "page_chunk \<Rightarrow> nat set" where
  "chunk_pages c = {unat (first_ppn c) ..< unat (first_ppn c) + unat (pagecnt c)}"

definition range_pages :: "u64 \<Rightarrow> u32 \<Rightarrow> nat set" where
  "range_pages pp cnt = {unat (pagenum pp) ..< unat (pagenum pp) + unat cnt}"

definition fl_pages :: "page_chunk list \<Rightarrow> nat set" where
  "fl_pages fl = (\<Union>c\<in>set fl. chunk_pages c)"

fun chunks_disjoint :: "page_chunk list \<Rightarrow> bool" where
  "chunks_disjoint [] = True"
| "chunks_disjoint (c # cs) =
     ((\<forall>d\<in>set cs. chunk_pages c \<inter> chunk_pages d = {}) \<and> chunks_disjoint cs)"

text \<open>
  A run of allocator calls, with a ghost set \<open>pa_held\<close> of the pages that are allocated
  and not yet freed: the pages of each successful \<open>alloc_phys_pages\<close>, the page that
  \<open>kmalloc\<close> takes for the heap inside \<open>free_phys_pages\<close> among them, less the pages
  given back through \<open>free_phys_pages\<close>.
\<close>

datatype pa_op = Alloc u32 | Free u64 u32

record pa_state =
  pa_heap :: heap
  pa_free :: "page_chunk list"
  pa_held :: "nat set"

fun pa_step :: "pa_state \<Rightarrow> pa_op \<Rightarrow> pa_state kresult" where
  "pa_step s (Alloc cnt) =
     (let (fl', p) = alloc_phys_pages (pa_free s) cnt
      in Returns (s\<lparr>pa_free := fl',
                     pa_held := pa_held s \<union> (if p = 0 then {} else range_pages p cnt)\<rparr>))"
| "pa_step s (Free pp cnt) =
     (case free_phys_pages (pa_heap s) (pa_free s) pp cnt of
        Panics \<Rightarrow> Panics
      | WildStore \<Rightarrow> WildStore
      | Returns (hp', fl') \<Rightarrow>
          Returns (s\<lparr>pa_heap := hp', pa_free := fl',
                       pa_held :=
                         (pa_held s - (if pp = 0 \<or> cnt = 0 then {} else range_pages pp cnt))
                         \<union> (if pp \<noteq> 0 \<and> cnt \<noteq> 0 \<and> heap_takes_page (pa_heap s)
                             then range_pages (snd (alloc_phys_page (pa_free s))) 1
                             else {})\<rparr>))"

fun pa_run :: "pa_state \<Rightarrow> pa_op list \<Rightarrow> pa_state kresult" where
  "pa_run s [] = Returns s"
| "pa_run s (x # xs) =
     (case pa_step s x of Panics \<Rightarrow> Panics | WildStore \<Rightarrow> WildStore
      | Returns s' \<Rightarrow> pa_run s' xs)"

text \<open>
  A run in which \<open>free_phys_pages\<close> is only given pages that are allocated at the time of
  the call.
\<close>

fun free_ok :: "pa_state \<Rightarrow> pa_op \<Rightarrow> bool" where
  "free_ok s (Alloc cnt) = True"
| "free_ok s (Free pp cnt) = (pp = 0 \<or> cnt = 0 \<or> range_pages pp cnt \<subseteq> pa_held s)"

fun frees_held :: "pa_state \<Rightarrow> pa_op list \<Rightarrow> bool" where
  "frees_held s [] = True"
| "frees_held s (x # xs) =
     (free_ok s x \<and> (case pa_step s x of Returns s' \<Rightarrow> frees_held s' xs | _ \<Rightarrow> True))"

text \<open>
  The state of the allocator between calls: the chunks of the free list are ranges of RAM
  that share no page with each other nor with the allocated pages.
\<close>

definition pa_inv :: "pa_state \<Rightarrow> bool" where
  "pa_inv s \<longleftrightarrow>
     list_all chunk_ok (pa_free s) \<and> chunks_disjoint (pa_free s) \<and>
     fl_pages (pa_free s) \<inter> pa_held s = {} \<and> finite (pa_held s) \<and>
     (\<forall>x\<in>pa_held s. 0 < x \<and> x < 2 ^ 52)"

text \<open>The free list \<open>memory_init\<close> builds: one chunk from \<open>free_start\<close> to \<open>free_end\<close>.\<close>

definition initial_free_list :: "u64 \<Rightarrow> u64 \<Rightarrow> page_chunk list" where
  "initial_free_list free_start free_end =
     [\<lparr>first_ppn = pagenum free_start, pagecnt = drop_bit PAGE_ORDER (free_end - free_start)\<rparr>]"

section \<open>Sv39 page tables and the user page-fault handler (memory.c)\<close>

text \<open>
  A page-table entry with the two fields the code reads and writes: the eight flag bits and
  the 44-bit physical page number. The compound literals of \<open>leaf_pte\<close>, \<open>ptab_pte\<close>
  and \<open>null_pte\<close> leave the other fields zero.
\<close>

record pte =
  flags :: u8
  ppn :: u64

definition PTE_V :: u8 where "PTE_V = 1"
definition PTE_R :: u8 where "PTE_R = 2"
definition PTE_W :: u8 where "PTE_W = 4"
definition PTE_X :: u8 where "PTE_X = 8"
definition PTE_U :: u8 where "PTE_U = 16"
definition PTE_G :: u8 where "PTE_G = 32"
definition PTE_A :: u8 where "PTE_A = 64"
definition PTE_D :: u8 where "PTE_D = 128"

definition MAP_RWUG :: u8 where "MAP_RWUG = PTE_R OR PTE_W OR PTE_U OR PTE_G"

definition PTE_VALID :: "pte \<Rightarrow> bool" where
  "PTE_VALID e \<longleftrightarrow> flags e AND PTE_V \<noteq> 0"

definition PTE_LEAF :: "pte \<Rightarrow> bool" where
  "PTE_LEAF e \<longleftrightarrow> flags e AND (PTE_R OR PTE_W OR PTE_X) \<noteq> 0"

definition leaf_pte :: "u64 \<Rightarrow> u8 \<Rightarrow> pte" where
  "leaf_pte pp rwxug_flags =
     \<lparr>flags = rwxug_flags OR PTE_A OR PTE_D OR PTE_V, ppn = take_bit 44 (pagenum pp)\<rparr>"

definition ptab_pte :: "u64 \<Rightarrow> u8 \<Rightarrow> pte" where
  "ptab_pte pt g_flag = \<lparr>flags = g_flag OR PTE_V, ppn = take_bit 44 (pagenum pt)\<rparr>"

definition null_pte :: pte where
  "null_pte = \<lparr>flags = 0, ppn = 0\<rparr>"

definition vpn_l2 :: "u64 \<Rightarrow> nat" where "vpn_l2 v = unat (drop_bit 30 v AND 0x1FF)"
definition vpn_l1 :: "u64 \<Rightarrow> nat" where "vpn_l1 v = unat (drop_bit 21 v AND 0x1FF)"
definition vpn_l0 :: "u64 \<Rightarrow> nat" where "vpn_l0 v = unat (drop_bit 12 v AND 0x1FF)"

text \<open>
  \<open>wellformed\<close>: bits 63:38 of the address are all 0 or all 1 (the shift is the
  arithmetic shift of an \<open>intptr_t\<close>).
\<close>

definition wellformed :: "u64 \<Rightarrow> bool" where
  "wellformed vma \<longleftrightarrow> (let bits = signed_drop_bit 38 vma in bits = 0 \<or> bits + 1 = 0)"

definition ROUND_DOWN :: "u64 \<Rightarrow> u64 \<Rightarrow> u64" where
  "ROUND_DOWN n k = n div k * k"

text \<open>
  The memory manager's state: physical memory seen as pages of 512 entries, addressed by
  the page's address (the kernel reaches page tables through the identity mapping), the
  free list, the heap and the \<open>satp\<close> register. A record scheme, so that the rest of the
  kernel's state can ride along.
\<close>

record vm_state =
  mem :: "u64 \<Rightarrow> nat \<Rightarrow> pte"
  free_chunk_list :: "page_chunk list"
  kheap :: heap
  satp :: u64

definition zero_page :: "nat \<Rightarrow> pte" where
  "zero_page = (\<lambda>i. null_pte)"

definition mtag_to_ptab :: "u64 \<Rightarrow> u64" where
  "mtag_to_ptab mtag = drop_bit 8 (push_bit 20 mtag)"

definition active_space_ptab :: "'a vm_state_scheme \<Rightarrow> u64" where
  "active_space_ptab st = mtag_to_ptab (satp st)"

text \<open>
  One level of \<open>walk_create\<close>; the code runs the same steps at level 2 and at level 1.
  The result is the next table (\<open>None\<close> for \<open>return NULL\<close>) and the state.
\<close>

definition walk_level ::
    "'a vm_state_scheme \<Rightarrow> u64 \<Rightarrow> nat \<Rightarrow> bool \<Rightarrow> u64 option \<times> 'a vm_state_scheme" where
  "walk_level st pt idx alloc =
     (let e = mem st pt idx in
      if \<not> PTE_VALID e \<or> \<not> PTE_LEAF e then
        (if \<not> PTE_VALID e then
           (if \<not> alloc then (None, st)
            else let (fl', new_pt) = alloc_phys_page (free_chunk_list st) in
              if new_pt = 0 then (None, st\<lparr>free_chunk_list := fl'\<rparr>)
              else let st1 = st\<lparr>free_chunk_list := fl', mem := (mem st)(new_pt := zero_page)\<rparr>;
                       st2 = st1\<lparr>mem := (mem st1)(pt := (mem st1 pt)(idx := ptab_pte new_pt PTE_G))\<rparr>
                   in (Some (pageptr (ppn (mem st2 pt idx))), st2))
         else (Some (pageptr (ppn e)), st))
      else (None, st))"

text \<open>\<open>walk_create\<close> returns the level-0 table and the index of the entry in it.\<close>

definition walk_create ::
    "'a vm_state_scheme \<Rightarrow> u64 \<Rightarrow> bool \<Rightarrow> (u64 \<times> nat) option \<times> 'a vm_state_scheme" where
  "walk_create st vma alloc =
     (if \<not> wellformed vma then (None, st)
      else case walk_level st (active_space_ptab st) (vpn_l2 vma) alloc of
        (None, st2) \<Rightarrow> (None, st2)
      | (Some pt1, st2) \<Rightarrow>
          (case walk_level st2 pt1 (vpn_l1 vma) alloc of
             (None, st1) \<Rightarrow> (None, st1)
           | (Some pt0, st1) \<Rightarrow> (Some (pt0, vpn_l0 vma), st1)))"

text \<open>\<open>map_page\<close> returns \<open>NULL\<close> (0) on success and a negative error as a pointer.\<close>

definition map_page ::
    "'a vm_state_scheme \<Rightarrow> u64 \<Rightarrow> u64 \<Rightarrow> u8 \<Rightarrow> u64 \<times> 'a vm_state_scheme" where
  "map_page st vma pp rwxug_flags =
     (if \<not> wellformed vma \<or> pp AND 0xFFF \<noteq> 0 then (- EINVAL, st)
      else case walk_create st vma True of
        (None, st') \<Rightarrow> (- ENOMEM, st')
      | (Some (pt, i), st') \<Rightarrow>
          (0, st'\<lparr>mem := (mem st')(pt := (mem st' pt)(i := leaf_pte pp rwxug_flags))\<rparr>))"

text \<open>
  \<open>handle_umode_page_fault\<close> returns 1 when it has mapped a page and 0 otherwise.
  \<open>free_phys_page\<close> on the failure path goes through \<open>kmalloc\<close>.
\<close>

definition handle_umode_page_fault ::
    "'a vm_state_scheme \<Rightarrow> u64 \<Rightarrow> (u32 \<times> 'a vm_state_scheme) kresult" where
  "handle_umode_page_fault st vma =
     (if \<not> wellformed vma \<or> 0x400000000000 \<le> vma then Returns (0, st)
      else let vma' = ROUND_DOWN vma 4096;
               (fl', pp) = alloc_phys_page (free_chunk_list st) in
        if pp = 0 then Returns (0, st\<lparr>free_chunk_list := fl'\<rparr>)
        else let st1 = st\<lparr>free_chunk_list := fl', mem := (mem st)(pp := zero_page)\<rparr>;
                 (ret, st2) = map_page st1 vma' pp MAP_RWUG in
          if ret <s 0 then
            (case free_phys_pages (kheap st2) (free_chunk_list st2) pp 1 of
               Panics \<Rightarrow> Panics
             | WildStore \<Rightarrow> WildStore
             | Returns (hp, fl3) \<Rightarrow> Returns (0, st2\<lparr>free_chunk_list := fl3, kheap := hp\<rparr>))
          else Returns (1, st2))"





section \<open>Trap dispatch for user mode (excp.c, syscall.c)\<close>

text \<open>
  The trap frame, with the fields the dispatch code touches: the argument registers and
  the saved pc. The remaining saved registers are not read or written on these paths.
\<close>

record trap_frame =
  a0 :: u64
  a1 :: u64
  a2 :: u64
  a3 :: u64
  a4 :: u64
  a5 :: u64
  a6 :: u64
  a7 :: u64
  sepc :: u64

text \<open>
  A system-call handler (\<open>sysexit\<close>, \<open>sysexec\<close>, ..., \<open>sysfork\<close>) gets the trap frame
  and the kernel state and either returns a value with the new state, or does not return
  to the dispatcher (\<open>None\<close>: \<open>sysexit\<close>, and \<open>sysexec\<close> when it succeeds). The
  handlers are a parameter, indexed by system-call number; the dispatcher's \<open>switch\<close>,
  with its default case, is \<open>syscall\<close>. The numbers are those of scnum.h.
\<close>

type_synonym 'k handler = "trap_frame \<Rightarrow> 'k \<Rightarrow> (u64 \<times> 'k) option"

definition syscall_numbers :: "u64 list" where
  "syscall_numbers = [0, 1, 2, 3, 4, 5, 10, 11, 12, 13, 16, 17, 18, 19, 20, 21]"

definition syscall :: "(u64 \<Rightarrow> 'k handler) \<Rightarrow> trap_frame \<Rightarrow> 'k \<Rightarrow> (u64 \<times> 'k) option" where
  "syscall handlers tfr k =
     (if a7 tfr \<in> set syscall_numbers then handlers (a7 tfr) tfr k
      else Some (- ENOTSUP, k))"

definition handle_syscall ::
    "(u64 \<Rightarrow> 'k handler) \<Rightarrow> trap_frame \<Rightarrow> 'k \<Rightarrow> (trap_frame \<times> 'k) option" where
  "handle_syscall handlers tfr k =
     (let tfr1 = tfr\<lparr>sepc := sepc tfr + 4\<rparr> in
      case syscall handlers tfr1 k of
        None \<Rightarrow> None
      | Some (r, k') \<Rightarrow> Some (tfr1\<lparr>a0 := r\<rparr>, k'))"

text \<open>
  What \<open>handle_umode_exception\<close> ends in: it returns to the trap stub, which resumes the
  process with the trap frame; it calls \<open>process_exit\<close>, which does not return; it
  panics; the system call itself did not return; or the kernel stored through a pointer
  computed from \<open>NULL\<close>.
\<close>

datatype 'k trap_outcome =
    Resume trap_frame 'k
  | ProcessExit 'k
  | KernelPanic
  | SyscallGone
  | KernelWildStore

definition RISCV_SCAUSE_ECALL_FROM_UMODE :: u32 where "RISCV_SCAUSE_ECALL_FROM_UMODE = 8"
definition RISCV_SCAUSE_INSTR_PAGE_FAULT :: u32 where "RISCV_SCAUSE_INSTR_PAGE_FAULT = 12"
definition RISCV_SCAUSE_LOAD_PAGE_FAULT :: u32 where "RISCV_SCAUSE_LOAD_PAGE_FAULT = 13"
definition RISCV_SCAUSE_STORE_PAGE_FAULT :: u32 where "RISCV_SCAUSE_STORE_PAGE_FAULT = 15"


text \<open>\<open>stval\<close> is the value of the \<open>stval\<close> register, the faulting address.\<close>

definition handle_umode_exception ::
    "(u64 \<Rightarrow> 'a vm_state_scheme handler) \<Rightarrow> u32 \<Rightarrow> trap_frame \<Rightarrow> u64 \<Rightarrow> 'a vm_state_scheme
       \<Rightarrow> 'a vm_state_scheme trap_outcome" where
  "handle_umode_exception handlers cause tfr stval st =
     (if cause = RISCV_SCAUSE_ECALL_FROM_UMODE then
        (case handle_syscall handlers tfr st of
           None \<Rightarrow> SyscallGone
         | Some (tfr', st') \<Rightarrow> if a0 tfr' <s 0 then ProcessExit st' else Resume tfr' st')
      else if cause = RISCV_SCAUSE_INSTR_PAGE_FAULT \<or> cause = RISCV_SCAUSE_LOAD_PAGE_FAULT
              \<or> cause = RISCV_SCAUSE_STORE_PAGE_FAULT then
        (case handle_umode_page_fault st stval of
           Panics \<Rightarrow> KernelPanic
         | WildStore \<Rightarrow> KernelWildStore
         | Returns (r, st') \<Rightarrow> if r = 1 then Resume tfr st' else ProcessExit st')
      else KernelPanic)"




section \<open>Threads, conditions and locks (thread.c)\<close>

text \<open>
  Pointers to \<open>struct thread\<close> and \<open>struct lock\<close> are addresses; the heap of thread
  and lock structs maps an address to the struct. The intrusive lists of the code (a
  condition's wait list and the ready list through \<open>list_next\<close>, a thread's lock list
  through the \<open>next\<close> field of the lock) are lists of addresses, first element first.
  A thread id is an \<open>int\<close>; only comparisons are made with it.
\<close>

type_synonym tptr = nat
type_synonym lptr = nat

datatype thread_state =
  THREAD_UNINITIALIZED | THREAD_WAITING | THREAD_RUNNING | THREAD_READY | THREAD_EXITED

datatype cond_ref = ChildExit tptr | LockCv lptr

record thread =
  thr_id :: int
  state :: thread_state
  parent :: "tptr option"
  wait_cond :: "cond_ref option"
  child_exit :: "tptr list"
  lock_list :: "lptr list"

record lock =
  owner :: "tptr option"
  count :: u32
  cv :: "tptr list"

record kernel =
  thrtab :: "nat \<Rightarrow> tptr option"
  threads :: "tptr \<Rightarrow> thread"
  locks :: "lptr \<Rightarrow> lock"
  TP :: tptr
  idle_thread :: tptr
  ready_list :: "tptr list"

definition NTHR :: nat where "NTHR = 32"
definition MAIN_TID :: int where "MAIN_TID = 0"

text \<open>
  How a call ends for the calling thread: it returns a value; it is suspended inside
  \<open>condition_wait\<close> (the state is the one after the switch to the next thread, and the
  caller tests its loop condition again when it is woken); it dereferences a null pointer;
  an assertion fails; the machine halts; or, for \<open>thread_exit\<close>, the thread is gone.
\<close>

datatype 'a sched_outcome =
    Returned 'a kernel
  | Waits kernel
  | Faults
  | Asserts
  | Halts
  | Exits kernel

definition wait_list :: "kernel \<Rightarrow> cond_ref \<Rightarrow> tptr list" where
  "wait_list k c = (case c of ChildExit t \<Rightarrow> child_exit (threads k t) | LockCv l \<Rightarrow> cv (locks k l))"

definition set_wait_list :: "kernel \<Rightarrow> cond_ref \<Rightarrow> tptr list \<Rightarrow> kernel" where
  "set_wait_list k c ws =
     (case c of
        ChildExit t \<Rightarrow> k\<lparr>threads := (threads k)(t := (threads k t)\<lparr>child_exit := ws\<rparr>)\<rparr>
      | LockCv l \<Rightarrow> k\<lparr>locks := (locks k)(l := (locks k l)\<lparr>cv := ws\<rparr>)\<rparr>)"

definition set_thread_state :: "kernel \<Rightarrow> tptr \<Rightarrow> thread_state \<Rightarrow> kernel" where
  "set_thread_state k t s = k\<lparr>threads := (threads k)(t := (threads k t)\<lparr>state := s\<rparr>)\<rparr>"

text \<open>
  \<open>running_thread_suspend\<close>: a caller that is still \<open>RUNNING\<close> goes to the tail of the
  ready list; the head of the ready list (the idle thread when the list is empty) becomes
  the running thread.
\<close>

definition running_thread_suspend :: "kernel \<Rightarrow> kernel" where
  "running_thread_suspend k =
     (let k1 = (if state (threads k (TP k)) = THREAD_RUNNING
                then (set_thread_state k (TP k) THREAD_READY)\<lparr>ready_list := ready_list k @ [TP k]\<rparr>
                else k);
          nextthrd = (case ready_list k1 of [] \<Rightarrow> idle_thread k1 | t # ts \<Rightarrow> t);
          k2 = k1\<lparr>ready_list := tl (ready_list k1)\<rparr>
      in (set_thread_state k2 nextthrd THREAD_RUNNING)\<lparr>TP := nextthrd\<rparr>)"

text \<open>\<open>condition_wait\<close>; \<open>None\<close> when its assertion on the caller's state fails.\<close>

definition condition_wait :: "kernel \<Rightarrow> cond_ref \<Rightarrow> kernel option" where
  "condition_wait k c =
     (if state (threads k (TP k)) \<noteq> THREAD_RUNNING then None
      else let k1 = k\<lparr>threads := (threads k)(TP k := (threads k (TP k))
                          \<lparr>state := THREAD_WAITING, wait_cond := Some c\<rparr>)\<rparr>;
               k2 = set_wait_list k1 c (wait_list k1 c @ [TP k])
           in Some (running_thread_suspend k2))"

definition wake :: "kernel \<Rightarrow> tptr \<Rightarrow> kernel" where
  "wake k t = k\<lparr>threads := (threads k)(t := (threads k t)\<lparr>state := THREAD_READY, wait_cond := None\<rparr>),
               ready_list := ready_list k @ [t]\<rparr>"

text \<open>\<open>condition_broadcast\<close> moves every waiter, in order, to the ready list.\<close>

definition condition_broadcast :: "kernel \<Rightarrow> cond_ref \<Rightarrow> kernel" where
  "condition_broadcast k c = fold (\<lambda>t k'. wake k' t) (wait_list k c) (set_wait_list k c [])"

definition lock_init :: "kernel \<Rightarrow> lptr \<Rightarrow> kernel" where
  "lock_init k l = k\<lparr>locks := (locks k)(l := \<lparr>owner = None, count = 0, cv = []\<rparr>)\<rparr>"

definition lock_acquire :: "kernel \<Rightarrow> lptr \<Rightarrow> unit sched_outcome" where
  "lock_acquire k l =
     (if owner (locks k l) = Some (TP k)
      then Returned () (k\<lparr>locks := (locks k)(l := (locks k l)\<lparr>count := count (locks k l) + 1\<rparr>)\<rparr>)
      else if owner (locks k l) \<noteq> None
      then (case condition_wait k (LockCv l) of None \<Rightarrow> Asserts | Some k' \<Rightarrow> Waits k')
      else Returned ()
             (k\<lparr>locks := (locks k)(l := (locks k l)\<lparr>owner := Some (TP k), count := 1\<rparr>),
                threads := (threads k)(TP k := (threads k (TP k))
                              \<lparr>lock_list := l # lock_list (threads k (TP k))\<rparr>)\<rparr>))"

text \<open>
  \<open>lock_release\<close>. The search for the lock in the caller's lock list runs off the end
  of the list when the lock is not on it.
\<close>

definition lock_release :: "kernel \<Rightarrow> lptr \<Rightarrow> unit sched_outcome" where
  "lock_release k l =
     (if owner (locks k l) \<noteq> Some (TP k) then Returned () k
      else let c = count (locks k l) - 1;
               k1 = k\<lparr>locks := (locks k)(l := (locks k l)\<lparr>count := c\<rparr>)\<rparr>
           in if 0 < c then Returned () k1
              else if l \<notin> set (lock_list (threads k1 (TP k1))) then Faults
              else let k2 = k1\<lparr>threads := (threads k1)(TP k1 := (threads k1 (TP k1))
                                  \<lparr>lock_list := remove1 l (lock_list (threads k1 (TP k1)))\<rparr>)\<rparr>;
                       k3 = k2\<lparr>locks := (locks k2)(l := (locks k2 l)\<lparr>owner := None\<rparr>)\<rparr>
                   in Returned () (condition_broadcast k3 (LockCv l)))"

text \<open>
  The state in which \<open>lock_release\<close> leaves the kernel when the caller gives up its last
  hold on the lock; \<open>lock_release_last\<close> below shows that it is that state.
\<close>

definition released :: "kernel \<Rightarrow> lptr \<Rightarrow> kernel" where
  "released k l =
     condition_broadcast
       (k\<lparr>threads := (threads k)(TP k := (threads k (TP k))
                        \<lparr>lock_list := remove1 l (lock_list (threads k (TP k)))\<rparr>),
          locks := (locks k)(l := (locks k l)\<lparr>count := 0, owner := None\<rparr>)\<rparr>)
       (LockCv l)"

text \<open>One round of the loop of \<open>thread_exit\<close> over the caller's lock list.\<close>

definition force_release :: "kernel \<Rightarrow> lptr \<Rightarrow> kernel" where
  "force_release k l =
     (let k1 = k\<lparr>threads := (threads k)(TP k := (threads k (TP k))
                        \<lparr>lock_list := tl (lock_list (threads k (TP k)))\<rparr>)\<rparr>;
          k2 = k1\<lparr>locks := (locks k1)(l := (locks k1 l)\<lparr>owner := None, count := 0\<rparr>)\<rparr>
      in condition_broadcast k2 (LockCv l))"

text \<open>
  The loop itself: it runs once for each lock on the list, since nothing in its body puts
  a lock on the caller's list.
\<close>

definition release_all :: "kernel \<Rightarrow> kernel" where
  "release_all k = fold (\<lambda>l k'. force_release k' l) (lock_list (threads k (TP k))) k"

definition thread_exit :: "kernel \<Rightarrow> unit sched_outcome" where
  "thread_exit k =
     (let k1 = release_all k
      in if thr_id (threads k1 (TP k1)) = MAIN_TID then Halts
         else let k2 = set_thread_state k1 (TP k1) THREAD_EXITED;
                  k3 = condition_broadcast k2 (ChildExit (TP k2))
              in Exits (running_thread_suspend k3))"

text \<open>
  The state in which \<open>thread_exit\<close> leaves the kernel when the caller is not the main
  thread, with the tests on the caller evaluated; \<open>thread_exit_other\<close> below shows
  that it is that state.
\<close>

definition exit_kernel :: "kernel \<Rightarrow> kernel" where
  "exit_kernel k =
     running_thread_suspend
       (condition_broadcast (set_thread_state (release_all k) (TP k) THREAD_EXITED)
          (ChildExit (TP k)))"

text \<open>
  \<open>thread_reclaim\<close>: the children of the reclaimed thread get its parent, the slot is
  cleared. \<open>None\<close> when an assertion fails.
\<close>

definition thread_reclaim :: "kernel \<Rightarrow> int \<Rightarrow> kernel option" where
  "thread_reclaim k tid =
     (if \<not> (0 < tid \<and> tid < int NTHR) then None
      else case thrtab k (nat tid) of
        None \<Rightarrow> None
      | Some thr \<Rightarrow>
          if state (threads k thr) \<noteq> THREAD_EXITED then None
          else let ths = fold (\<lambda>ctid ths.
                           case thrtab k ctid of
                             None \<Rightarrow> ths
                           | Some c \<Rightarrow> if parent (ths c) = Some thr
                                       then ths(c := (ths c)\<lparr>parent := parent (ths thr)\<rparr>)
                                       else ths)
                         [1..<NTHR] (threads k)
               in Some (k\<lparr>threads := ths, thrtab := (thrtab k)(nat tid := None)\<rparr>))"

text \<open>
  \<open>thread_join\<close>. The first test assigns \<open>child\<close> only when \<open>tid\<close> is in range; a
  \<open>tid\<close> other than 0 whose slot is empty, or which is out of range, leaves \<open>child\<close>
  null, and the wait loop reads \<open>child->state\<close>.
\<close>

definition thread_join :: "kernel \<Rightarrow> int \<Rightarrow> int sched_outcome" where
  "thread_join k tid =
     (let child0 = (if 0 < tid \<and> tid < int NTHR then thrtab k (nat tid) else None) in
      if (case child0 of None \<Rightarrow> False | Some c \<Rightarrow> parent (threads k c) \<noteq> Some (TP k))
      then Returned (- EINVAL) k
      else
        let child = (if tid = 0
                     then (case find (\<lambda>i. case thrtab k i of None \<Rightarrow> False
                                           | Some c \<Rightarrow> parent (threads k c) = Some (TP k))
                                  [0..<NTHR] of
                             None \<Rightarrow> None | Some i \<Rightarrow> thrtab k i)
                     else child0)
        in if tid = 0 \<and> child = None then Returned (- EINVAL) k
           else case child of
             None \<Rightarrow> Faults
           | Some c \<Rightarrow>
               let tid' = (if tid = 0 then thr_id (threads k c) else tid) in
               if state (threads k c) \<noteq> THREAD_EXITED
               then (case condition_wait k (ChildExit c) of None \<Rightarrow> Asserts | Some k' \<Rightarrow> Waits k')
               else (case thread_reclaim k tid' of
                       None \<Rightarrow> Asserts
                     | Some k' \<Rightarrow> Returned tid' k'))"

text \<open>
  \<open>thread_spawn\<close>, as far as the table goes: \<open>create_thread\<close> takes the first free slot
  from 1 and a zero-filled struct at the address \<open>thr\<close> that \<open>kcalloc\<close> returns; the
  new thread is a child of the caller and goes to the ready list.
\<close>

definition thread_spawn :: "kernel \<Rightarrow> tptr \<Rightarrow> int sched_outcome" where
  "thread_spawn k thr =
     (case find (\<lambda>i. thrtab k i = None) [1..<NTHR] of
        None \<Rightarrow> Returned (- EMTHR) k
      | Some tid \<Rightarrow>
          Returned (int tid)
            (k\<lparr>thrtab := (thrtab k)(tid := Some thr),
               threads := (threads k)(thr := \<lparr>thr_id = int tid, state = THREAD_READY,
                    parent = Some (TP k), wait_cond = None, child_exit = [], lock_list = []\<rparr>),
               ready_list := ready_list k @ [thr]\<rparr>))"

text \<open>The invariant of a lock, and the state of every lock of a kernel state.\<close>

definition lock_ok :: "lock \<Rightarrow> bool" where
  "lock_ok l \<longleftrightarrow> (0 < count l) = (owner l \<noteq> None)"

text \<open>
  With it goes what \<open>lock_release\<close> relies on: a lock that has an owner is on the lock
  list of its owner.
\<close>

definition lock_inv :: "kernel \<Rightarrow> lptr \<Rightarrow> bool" where
  "lock_inv k l \<longleftrightarrow>
     lock_ok (locks k l) \<and>
     (case owner (locks k l) of None \<Rightarrow> True | Some t \<Rightarrow> l \<in> set (lock_list (threads k t)))"

text \<open>
  The kernel after boot, for the examples: the main thread (at address 100, slot 0)
  running, the idle thread (at address 101, slot \<open>NTHR - 1\<close>) ready.
\<close>

definition boot_kernel :: kernel where
  "boot_kernel =
     \<lparr>thrtab = (\<lambda>i. if i = 0 then Some 100 else if i = NTHR - 1 then Some 101 else None),
      threads = (\<lambda>t. if t = 101
                      then \<lparr>thr_id = int NTHR - 1, state = THREAD_READY, parent = Some 100,
                            wait_cond = None, child_exit = [], lock_list = []\<rparr>
                      else \<lparr>thr_id = 0, state = THREAD_RUNNING, parent = None,
                            wait_cond = None, child_exit = [], lock_list = []\<rparr>),
      locks = (\<lambda>l. \<lparr>owner = None, count = 0, cv = []\<rparr>),
      TP = 100, idle_thread = 101, ready_list = [101]\<rparr>"

text \<open>
  An example run: the main thread spawns a thread (struct at address 200, slot 1) and
  joins it; the join waits, the idle thread yields to the child, the child exits, the idle
  thread yields again and the main thread runs with the child exited.
\<close>

definition example_spawned :: kernel where
  "example_spawned = (case thread_spawn boot_kernel 200 of Returned t k \<Rightarrow> k | _ \<Rightarrow> boot_kernel)"

definition example_child_running :: kernel where
  "example_child_running =
     (case thread_join example_spawned 1 of
        Waits k \<Rightarrow> running_thread_suspend k
      | _ \<Rightarrow> boot_kernel)"

definition example_child_exited :: kernel where
  "example_child_exited =
     (case thread_exit example_child_running of
        Exits k \<Rightarrow> running_thread_suspend k
      | _ \<Rightarrow> boot_kernel)"

text \<open>Calls made one after the other by the running thread, while each returns.\<close>

fun repeat_call :: "nat \<Rightarrow> (kernel \<Rightarrow> unit sched_outcome) \<Rightarrow> kernel \<Rightarrow> unit sched_outcome" where
  "repeat_call 0 f k = Returned () k"
| "repeat_call (Suc n) f k = (case f k of Returned u k' \<Rightarrow> repeat_call n f k' | out \<Rightarrow> out)"

text \<open>
  A second example run: the main thread spawns two threads (structs at 200 and 201,
  slots 1 and 2) and joins the first; thread 1 acquires lock 7 twice and yields; thread 2
  asks for lock 7 and waits; thread 1 runs again, holding the lock, with thread 2 waiting.
\<close>

definition example_lock_held :: kernel where
  "example_lock_held =
     (case thread_spawn example_spawned 201 of
        Returned t k1 \<Rightarrow>
          (case thread_join k1 1 of
             Waits k2 \<Rightarrow>
               (case repeat_call 2 (\<lambda>k. lock_acquire k 7) (running_thread_suspend k2) of
                  Returned u k3 \<Rightarrow>
                    (case lock_acquire (running_thread_suspend k3) 7 of
                       Waits k4 \<Rightarrow> running_thread_suspend k4
                     | _ \<Rightarrow> boot_kernel)
                | _ \<Rightarrow> boot_kernel)
           | _ \<Rightarrow> boot_kernel)
      | _ \<Rightarrow> boot_kernel)"

text \<open>The same state after thread 1 has released lock 7 once: it holds it once.\<close>

definition example_lock_once :: kernel where
  "example_lock_once =
     (case lock_release example_lock_held 7 of Returned u k \<Rightarrow> k | _ \<Rightarrow> boot_kernel)"

section \<open>Seekable endpoints (io.c)\<close>









section \<open>KTFS files (ktfs.c)\<close>



definition KTFS_BLKSZ :: "'a::semiring_numeral" where "KTFS_BLKSZ = 512"
definition KTFS_NUM_INDIRECT_BLOCKS :: nat where "KTFS_NUM_INDIRECT_BLOCKS = 1"
definition KTFS_NUM_DINDIRECT_BLOCKS :: nat where "KTFS_NUM_DINDIRECT_BLOCKS = 2"
















section \<open>Reading 64-bit words as signed values\<close>

lemma sint64_alt: "sint (w::64 word) = (if uint w < 2 ^ 63 then uint w else uint w - 2 ^ 64)"
proof -
  have b: "uint w < 2 ^ 64" using uint_lt2p [of w] by simp
  have nn: "0 \<le> uint w" by simp
  have "sint w = signed_take_bit 63 (uint w)" by (simp add: sint_uint)
  also have "\<dots> = (uint w + 2 ^ 63) mod 2 ^ 64 - 2 ^ 63"
    by (simp add: signed_take_bit_eq_take_bit_shift take_bit_eq_mod)
  also have "\<dots> = (if uint w < 2 ^ 63 then uint w else uint w - 2 ^ 64)"
  proof (cases "uint w < 2 ^ 63")
    case True
    then have "(uint w + 2 ^ 63) mod 2 ^ 64 = uint w + 2 ^ 63"
      using nn by (intro mod_pos_pos_trivial) simp_all
    then show ?thesis using True by simp
  next
    case False
    have e: "uint w + 2 ^ 63 = (uint w - 2 ^ 63) + 2 ^ 64" by simp
    have "(uint w + 2 ^ 63) mod 2 ^ 64 = ((uint w - 2 ^ 63) + 2 ^ 64) mod 2 ^ 64"
      by (subst e) (rule refl)
    also have "\<dots> = (uint w - 2 ^ 63) mod 2 ^ 64" by (simp only: mod_add_self2)
    also have "\<dots> = uint w - 2 ^ 63"
      using False b by (intro mod_pos_pos_trivial) simp_all
    finally show ?thesis using False by simp
  qed
  finally show ?thesis .
qed

lemma sge0_unat: "0 \<le>s (x::64 word) \<longleftrightarrow> unat x < 2 ^ 63"
proof -
  have b: "uint x < 2 ^ 64" using uint_lt2p [of x] by simp
  have "unat x < 2 ^ 63 \<longleftrightarrow> uint x < 2 ^ 63"
    by (simp add: unat_eq_nat_uint nat_less_iff del: nat_uint_eq)
  then show ?thesis using b by (simp add: word_sle_eq sint64_alt)
qed

lemma slt0_unat: "(x::64 word) <s 0 \<longleftrightarrow> 2 ^ 63 \<le> unat x"
  using sge0_unat [of x] by (auto simp: word_sless_alt word_sle_eq)

section \<open>The memory-buffer endpoint\<close>

lemma memio_readat_past_end:
  "msize m \<le> pos \<Longrightarrow> memio_readat m pos bufsz = (- EINVAL, [])"
  by (simp add: memio_readat_def)

lemma memio_readat_truncates:
  assumes "pos < msize m" and "0 \<le>s bufsz" and "unat (msize m) \<le> 2 ^ 63"
    and "unat (msize m) < unat pos + unat bufsz"
  shows "memio_readat m pos bufsz =
           (msize m - pos, take (unat (msize m) - unat pos) (drop (unat pos) (mbuf m)))"
proof -
  have b: "unat bufsz < 2 ^ 63" using assms(2) by (simp add: sge0_unat)
  have p: "unat pos < 2 ^ 63" using assms(1,3) by (simp add: word_less_nat_alt)
  have "unat (pos + bufsz) = unat pos + unat bufsz"
    using b p by (simp add: unat_word_ariths)
  then have "msize m < pos + bufsz" using assms(4) by (simp add: word_less_nat_alt)
  moreover have "\<not> bufsz <s 0" using b by (simp add: slt0_unat)
  moreover have "\<not> msize m \<le> pos" using assms(1) by simp
  moreover have "unat (msize m - pos) = unat (msize m) - unat pos"
    using assms(1) by (simp add: unat_sub)
  ultimately show ?thesis by (simp add: memio_readat_def)
qed

lemma memio_readat_in_range:
  assumes "pos < msize m" and "0 \<le>s bufsz" and "unat (msize m) \<le> 2 ^ 63"
    and "unat pos + unat bufsz \<le> unat (msize m)"
  shows "memio_readat m pos bufsz = (bufsz, take (unat bufsz) (drop (unat pos) (mbuf m)))"
proof -
  have b: "unat bufsz < 2 ^ 63" using assms(2) by (simp add: sge0_unat)
  have p: "unat pos < 2 ^ 63" using assms(1,3) by (simp add: word_less_nat_alt)
  have "unat (pos + bufsz) = unat pos + unat bufsz"
    using b p by (simp add: unat_word_ariths)
  then have "\<not> msize m < pos + bufsz" using assms(4) by (simp add: word_less_nat_alt)
  moreover have "\<not> bufsz <s 0" using b by (simp add: slt0_unat)
  moreover have "\<not> msize m \<le> pos" using assms(1) by simp
  ultimately show ?thesis by (simp add: memio_readat_def)
qed

lemma memio_setend:
  "memio_cntl m IOCTL_SETEND new_end =
     (if new_end \<le> msize m then (0, m\<lparr>msize := new_end\<rparr>, None) else (- EINVAL, m, None))"
  by (auto simp: memio_cntl_def IOCTL_SETEND_def IOCTL_GETBLKSZ_def IOCTL_GETEND_def)

text \<open>
  C6, as stated, fails: a \<open>readat\<close> at the end of a three-byte buffer returns
  \<open>-EINVAL\<close>, which is \<open>-1\<close>, not \<open>0\<close>.
\<close>

theorem memio_readat_at_end_counterexample:
  "fst (memio_readat \<lparr>mbuf = [1, 2, 3], msize = 3\<rparr> 3 1) = - 1 \<and>
   fst (memio_readat \<lparr>mbuf = [1, 2, 3], msize = 3\<rparr> 3 1) \<noteq> 0"
  by (simp add: memio_readat_def EINVAL_def)

text \<open>
  C6, amended. For the memory-buffer endpoint (buffers of at most \<open>2^63\<close> bytes):
  \<open>readat\<close> with \<open>pos\<close> at or past the buffer end returns \<open>-EINVAL\<close> and copies
  nothing; a \<open>readat\<close> that starts inside the buffer and whose range extends past the end
  is truncated to the \<open>size - pos\<close> bytes available, returns that truncated count and
  copies exactly those bytes; and \<open>SETEND\<close> succeeds (returns 0 and stores the new end)
  exactly when the new end does not exceed the current size, and otherwise returns
  \<open>-EINVAL\<close> and leaves the endpoint unchanged.
\<close>

theorem memio_endpoint_bounds:
  "(msize m \<le> pos \<longrightarrow> memio_readat m pos bufsz = (- EINVAL, [])) \<and>
   (pos < msize m \<and> 0 \<le>s bufsz \<and> unat (msize m) \<le> 2 ^ 63 \<and>
      unat (msize m) < unat pos + unat bufsz \<longrightarrow>
        memio_readat m pos bufsz =
          (msize m - pos, take (unat (msize m) - unat pos) (drop (unat pos) (mbuf m)))) \<and>
   (new_end \<le> msize m \<longrightarrow>
        memio_cntl m IOCTL_SETEND new_end = (0, m\<lparr>msize := new_end\<rparr>, None)) \<and>
   (msize m < new_end \<longrightarrow> memio_cntl m IOCTL_SETEND new_end = (- EINVAL, m, None)) \<and>
   (fst (memio_cntl m IOCTL_SETEND new_end) = 0 \<longleftrightarrow> new_end \<le> msize m)"
proof (intro conjI impI)
  show "msize m \<le> pos \<Longrightarrow> memio_readat m pos bufsz = (- EINVAL, [])"
    by (rule memio_readat_past_end)
  show "pos < msize m \<and> 0 \<le>s bufsz \<and> unat (msize m) \<le> 2 ^ 63 \<and>
      unat (msize m) < unat pos + unat bufsz \<Longrightarrow>
        memio_readat m pos bufsz =
          (msize m - pos, take (unat (msize m) - unat pos) (drop (unat pos) (mbuf m)))"
    by (simp add: memio_readat_truncates)
  show "new_end \<le> msize m \<Longrightarrow>
        memio_cntl m IOCTL_SETEND new_end = (0, m\<lparr>msize := new_end\<rparr>, None)"
    by (simp add: memio_setend)
  show "msize m < new_end \<Longrightarrow> memio_cntl m IOCTL_SETEND new_end = (- EINVAL, m, None)"
    by (auto simp: memio_setend)
  show "fst (memio_cntl m IOCTL_SETEND new_end) = 0 \<longleftrightarrow> new_end \<le> msize m"
    by (simp add: memio_setend EINVAL_def)
qed

theorem memio_endpoint_bounds_witness:
  "memio_readat \<lparr>mbuf = [1, 2, 3], msize = 3\<rparr> 3 1 = (- 1, []) \<and>
   memio_readat \<lparr>mbuf = [1, 2, 3], msize = 3\<rparr> 1 5 = (2, [2, 3]) \<and>
   memio_cntl \<lparr>mbuf = [1, 2, 3], msize = 3\<rparr> IOCTL_SETEND 2
     = (0, \<lparr>mbuf = [1, 2, 3], msize = 2\<rparr>, None) \<and>
   memio_cntl \<lparr>mbuf = [1, 2, 3], msize = 2\<rparr> IOCTL_SETEND 3
     = (- 1, \<lparr>mbuf = [1, 2, 3], msize = 2\<rparr>, None)"
  using memio_endpoint_bounds [of "\<lparr>mbuf = [1, 2, 3], msize = 3\<rparr>" 3 1 2]
    memio_endpoint_bounds [of "\<lparr>mbuf = [1, 2, 3], msize = 3\<rparr>" 1 5 2]
    memio_endpoint_bounds [of "\<lparr>mbuf = [1, 2, 3], msize = 2\<rparr>" 1 5 3]
  by (simp add: EINVAL_def word_sle_eq)

section \<open>Pipes: ring arithmetic and the two loops\<close>

lemma PIPE_BUFSZ_val: "PIPE_BUFSZ = 4096" by (simp add: PIPE_BUFSZ_def PAGE_SIZE_def)

lemma unread_le: "unread p < PIPE_BUFSZ" by (simp add: unread_def PIPE_BUFSZ_val)

lemma unread_cases:
  assumes "pipe_ok p"
  shows "unread p = (if tail p \<le> head p then head p - tail p else head p + PIPE_BUFSZ - tail p)"
proof -
  have h: "head p < PIPE_BUFSZ" and t: "tail p < PIPE_BUFSZ"
    using assms by (simp_all add: pipe_ok_def)
  show ?thesis
  proof (cases "tail p \<le> head p")
    case True
    have "head p + PIPE_BUFSZ - tail p = (head p - tail p) + PIPE_BUFSZ" using True by simp
    then have "unread p = (head p - tail p) mod PIPE_BUFSZ" by (simp add: unread_def)
    moreover have "head p - tail p < PIPE_BUFSZ" using h by arith
    ultimately show ?thesis using True by simp
  next
    case False
    have "head p + PIPE_BUFSZ - tail p < PIPE_BUFSZ" using False h t by arith
    then show ?thesis using False by (simp add: unread_def)
  qed
qed

lemma slot_head:
  assumes ok: "pipe_ok p"
  shows "(tail p + unread p) mod PIPE_BUFSZ = head p"
proof -
  have h: "head p < PIPE_BUFSZ" and t: "tail p < PIPE_BUFSZ"
    using assms by (simp_all add: pipe_ok_def)
  show ?thesis
  proof (cases "tail p \<le> head p")
    case True
    then have "tail p + unread p = head p" using ok by (simp add: unread_cases)
    then show ?thesis using h by simp
  next
    case False
    then have "tail p + unread p = head p + PIPE_BUFSZ"
      using ok t by (simp add: unread_cases)
    then show ?thesis using h by simp
  qed
qed

lemma slot_other:
  assumes ok: "pipe_ok p" and i: "i < unread p"
  shows "(tail p + i) mod PIPE_BUFSZ \<noteq> head p"
proof -
  have h: "head p < PIPE_BUFSZ" and t: "tail p < PIPE_BUFSZ"
    using assms by (simp_all add: pipe_ok_def)
  show ?thesis
  proof (cases "tail p \<le> head p")
    case True
    then have "tail p + i < head p" using i ok by (simp add: unread_cases)
    then show ?thesis using h by simp
  next
    case False
    then have b: "tail p + i < head p + PIPE_BUFSZ" using i ok t by (simp add: unread_cases)
    show ?thesis
    proof (cases "tail p + i < PIPE_BUFSZ")
      case True
      then show ?thesis using \<open>\<not> tail p \<le> head p\<close> by simp
    next
      case False
      have "tail p + i - PIPE_BUFSZ < PIPE_BUFSZ" using b h by arith
      then have "(tail p + i) mod PIPE_BUFSZ = tail p + i - PIPE_BUFSZ"
        using False by (simp add: le_mod_geq)
      then show ?thesis using b False by simp
    qed
  qed
qed

lemma full_iff:
  assumes ok: "pipe_ok p"
  shows "((head p + 1) mod PIPE_BUFSZ = tail p) = (unread p = PIPE_BUFSZ - 1)"
proof -
  have h: "head p < PIPE_BUFSZ" and t: "tail p < PIPE_BUFSZ"
    using assms by (simp_all add: pipe_ok_def)
  have m: "(head p + 1) mod PIPE_BUFSZ = (if head p + 1 = PIPE_BUFSZ then 0 else head p + 1)"
    using h by (simp add: mod_if)
  show ?thesis
  proof (cases "tail p \<le> head p")
    case True
    then show ?thesis unfolding m unread_cases [OF ok] using h t by (simp split: if_splits) arith
  next
    case False
    then show ?thesis unfolding m unread_cases [OF ok] using h t by (simp split: if_splits) arith
  qed
qed

lemma unread_adv_head:
  "pipe_ok p \<Longrightarrow> (head p + 1) mod PIPE_BUFSZ \<noteq> tail p \<Longrightarrow>
   unread (p\<lparr>pbuf := b, head := (head p + 1) mod PIPE_BUFSZ\<rparr>) = unread p + 1"
  unfolding pipe_ok_def unread_def PIPE_BUFSZ_val
  by (auto simp: mod_if split: if_splits)

lemma unread_adv_tail':
  "pipe_ok p \<Longrightarrow> head p \<noteq> tail p \<Longrightarrow>
   unread (p\<lparr>tail := (tail p + 1) mod PIPE_BUFSZ\<rparr>) = unread p - 1 \<and> 0 < unread p"
  unfolding pipe_ok_def unread_def PIPE_BUFSZ_val
  by (auto simp: mod_if split: if_splits)

lemma unread_adv_tail:
  "pipe_ok p \<Longrightarrow> head p \<noteq> tail p \<Longrightarrow>
   unread p = Suc (unread (p\<lparr>tail := (tail p + 1) mod PIPE_BUFSZ\<rparr>))"
  using unread_adv_tail' [of p] by simp

lemma pipe_ok_push:
  "pipe_ok p \<Longrightarrow> pipe_ok (p\<lparr>pbuf := (pbuf p)[head p := b], head := (head p + 1) mod PIPE_BUFSZ\<rparr>)"
  by (simp add: pipe_ok_def PIPE_BUFSZ_val)

lemma pipe_ok_pop:
  "pipe_ok p \<Longrightarrow> pipe_ok (p\<lparr>tail := (tail p + 1) mod PIPE_BUFSZ\<rparr>)"
  by (simp add: pipe_ok_def PIPE_BUFSZ_val)

lemma contents_push:
  assumes "pipe_ok p" "(head p + 1) mod PIPE_BUFSZ \<noteq> tail p"
  shows "contents (p\<lparr>pbuf := (pbuf p)[head p := b], head := (head p + 1) mod PIPE_BUFSZ\<rparr>)
         = contents p @ [b]"
proof -
  have h: "head p < length (pbuf p)" using assms(1) by (simp add: pipe_ok_def)
  have "\<And>i. i < unread p \<Longrightarrow> (pbuf p)[head p := b] ! ((tail p + i) mod PIPE_BUFSZ)
                 = pbuf p ! ((tail p + i) mod PIPE_BUFSZ)"
    using slot_other [OF assms(1), THEN not_sym] by simp
  moreover have "(pbuf p)[head p := b] ! ((tail p + unread p) mod PIPE_BUFSZ) = b"
    using slot_head [OF assms(1)] h by simp
  ultimately show ?thesis
    using unread_adv_head [OF assms, of "(pbuf p)[head p := b]"]
    by (simp add: contents_def)
qed

lemma contents_pop:
  assumes "pipe_ok p" "head p \<noteq> tail p"
  shows "contents p = pbuf p ! tail p # contents (p\<lparr>tail := (tail p + 1) mod PIPE_BUFSZ\<rparr>)"
proof -
  let ?q = "p\<lparr>tail := (tail p + 1) mod PIPE_BUFSZ\<rparr>"
  have u: "unread p = Suc (unread ?q)" using unread_adv_tail [OF assms] by simp
  have t: "tail p < PIPE_BUFSZ" using assms(1) by (simp add: pipe_ok_def)
  have "[0..<unread p] = 0 # map Suc [0..<unread ?q]"
    unfolding u by (simp add: upt_conv_Cons map_Suc_upt del: upt_Suc)
  moreover have "\<And>i. ((tail p + 1) mod PIPE_BUFSZ + i) mod PIPE_BUFSZ = (tail p + Suc i) mod PIPE_BUFSZ"
    by (simp add: mod_add_left_eq)
  ultimately show ?thesis using t by (simp add: contents_def comp_def)
qed

lemma empty_iff: "pipe_ok p \<Longrightarrow> (head p = tail p) = (unread p = 0)"
  by (auto simp: unread_cases pipe_ok_def)

lemma room_full:
  assumes "pipe_ok p"
  shows "((head p + 1) mod PIPE_BUFSZ = tail p) = (room p = 0)"
proof -
  have "((head p + 1) mod PIPE_BUFSZ = tail p) = (unread p = PIPE_BUFSZ - 1)"
    by (rule full_iff [OF assms])
  moreover have "unread p < PIPE_BUFSZ" by (rule unread_le)
  ultimately show ?thesis unfolding room_def by arith
qed

lemma room_push:
  "pipe_ok p \<Longrightarrow> (head p + 1) mod PIPE_BUFSZ \<noteq> tail p \<Longrightarrow>
   room p = Suc (room (p\<lparr>pbuf := b, head := (head p + 1) mod PIPE_BUFSZ\<rparr>))"
  using unread_adv_head [of p b] room_full [of p] by (simp add: room_def)

lemma pipe_write_loop_result:
  "pipe_ok p \<Longrightarrow> snd (pipe_write_loop p src tot) =
     (if length src \<le> room p then WReturned (int (tot + length src))
      else if closed_read p then WReturned (- EPIPE)
      else WBlocked (tot + room p) (drop (room p) src))"
proof (induction src arbitrary: p tot)
  case Nil
  then show ?case by simp
next
  case (Cons b src)
  show ?case
  proof (cases "(head p + 1) mod PIPE_BUFSZ = tail p")
    case True
    then have "room p = 0" using room_full [OF Cons.prems] by simp
    then show ?thesis using True by simp
  next
    case False
    let ?q = "p\<lparr>pbuf := (pbuf p)[head p := b], head := (head p + 1) mod PIPE_BUFSZ\<rparr>"
    have r: "room p = Suc (room ?q)" using room_push [OF Cons.prems False] .
    have ok: "pipe_ok ?q" using Cons.prems by (rule pipe_ok_push)
    show ?thesis using False Cons.IH [OF ok, of "Suc tot"] r by simp
  qed
qed

lemma pipe_write_loop_state:
  "pipe_ok p \<Longrightarrow>
     pipe_ok (fst (pipe_write_loop p src tot)) \<and>
     contents (fst (pipe_write_loop p src tot)) = contents p @ take (room p) src \<and>
     tail (fst (pipe_write_loop p src tot)) = tail p \<and>
     closed_read (fst (pipe_write_loop p src tot)) = closed_read p \<and>
     closed_write (fst (pipe_write_loop p src tot)) = closed_write p"
proof (induction src arbitrary: p tot)
  case Nil
  then show ?case by simp
next
  case (Cons b src)
  show ?case
  proof (cases "(head p + 1) mod PIPE_BUFSZ = tail p")
    case True
    then have "room p = 0" using room_full [OF Cons.prems] by simp
    then show ?thesis using True Cons.prems by simp
  next
    case False
    let ?q = "p\<lparr>pbuf := (pbuf p)[head p := b], head := (head p + 1) mod PIPE_BUFSZ\<rparr>"
    have r: "room p = Suc (room ?q)" using room_push [OF Cons.prems False] .
    have ok: "pipe_ok ?q" using Cons.prems by (rule pipe_ok_push)
    have c: "contents ?q = contents p @ [b]" using contents_push [OF Cons.prems False] .
    show ?thesis using False Cons.IH [OF ok, of "Suc tot"] r c by simp
  qed
qed

lemma pipe_read_loop_result:
  "pipe_ok p \<Longrightarrow> snd (pipe_read_loop p len dst) =
     (if len \<le> unread p then RReturned (int (length dst + len)) (dst @ take len (contents p))
      else if closed_write p then RReturned (int (length dst + unread p)) (dst @ contents p)
      else RBlocked (len - unread p) (dst @ contents p))"
proof (induction len arbitrary: p dst)
  case 0
  then show ?case by simp
next
  case (Suc len)
  show ?case
  proof (cases "head p = tail p")
    case True
    then have u: "unread p = 0" using Suc.prems by (simp add: empty_iff)
    then have "contents p = []" by (simp add: contents_def)
    then show ?thesis using True u by simp
  next
    case False
    let ?q = "p\<lparr>tail := (tail p + 1) mod PIPE_BUFSZ\<rparr>"
    have u: "unread p = Suc (unread ?q)" using unread_adv_tail [OF Suc.prems False] .
    have ok: "pipe_ok ?q" using Suc.prems by (rule pipe_ok_pop)
    have c: "contents p = pbuf p ! tail p # contents ?q" using contents_pop [OF Suc.prems False] .
    show ?thesis using False Suc.IH [OF ok, of "dst @ [pbuf p ! tail p]"] u c by simp
  qed
qed

lemma pipe_read_loop_state:
  "pipe_ok p \<Longrightarrow>
     pipe_ok (fst (pipe_read_loop p len dst)) \<and>
     contents (fst (pipe_read_loop p len dst)) = drop len (contents p) \<and>
     head (fst (pipe_read_loop p len dst)) = head p \<and>
     closed_read (fst (pipe_read_loop p len dst)) = closed_read p \<and>
     closed_write (fst (pipe_read_loop p len dst)) = closed_write p"
proof (induction len arbitrary: p dst)
  case 0
  then show ?case by simp
next
  case (Suc len)
  show ?case
  proof (cases "head p = tail p")
    case True
    then have u: "unread p = 0" using Suc.prems by (simp add: empty_iff)
    then have "contents p = []" by (simp add: contents_def)
    then show ?thesis using True Suc.prems by simp
  next
    case False
    let ?q = "p\<lparr>tail := (tail p + 1) mod PIPE_BUFSZ\<rparr>"
    have ok: "pipe_ok ?q" using Suc.prems by (rule pipe_ok_pop)
    have c: "contents p = pbuf p ! tail p # contents ?q" using contents_pop [OF Suc.prems False] .
    show ?thesis using False Suc.IH [OF ok, of "dst @ [pbuf p ! tail p]"] c by simp
  qed
qed

lemma length_contents: "length (contents p) = unread p"
  by (simp add: contents_def)

text \<open>
  C7, as stated, fails: on an empty pipe whose reader endpoint has been closed, a write of
  one byte buffers the byte and returns 1, not \<open>-EPIPE\<close>.
\<close>

theorem pipe_write_reader_closed_counterexample:
  "closed_read (pipe_close (create_pipe (replicate 4096 0)) False) \<and>
   snd (pipe_write (pipe_close (create_pipe (replicate 4096 0)) False) [7]) = WReturned 1 \<and>
   snd (pipe_write (pipe_close (create_pipe (replicate 4096 0)) False) [7])
     \<noteq> WReturned (- EPIPE)"
  by (simp add: pipe_write_def pipe_close_def create_pipe_def PIPE_BUFSZ_val EPIPE_def)

text \<open>
  C7, amended. For every pipe: a read that finds the pipe empty with the writer-closed flag
  set returns the bytes read so far (0, as end of file, when nothing was read), so that a
  reader of a pipe whose writer has closed gets the unread bytes in order, at most as many
  as it asked for, and then 0; and a write to a pipe whose reader-closed flag is set
  returns \<open>-EPIPE\<close> exactly when it finds the ring full, before its first byte or after
  buffering part of its data: while the ring has room for all the bytes, they are
  buffered and the write returns their count.
\<close>

theorem pipe_closed_ends:
  assumes "pipe_ok p"
  shows "(head p = tail p \<and> closed_write p \<longrightarrow>
            pipe_read_loop p (Suc len) dst = (p, RReturned (int (length dst)) dst)) \<and>
         (head p = tail p \<and> closed_write p \<longrightarrow> pipe_read p (Suc len) = (p, RReturned 0 [])) \<and>
         (closed_write p \<longrightarrow>
            snd (pipe_read p len) = RReturned (int (min len (unread p))) (take len (contents p))) \<and>
         (closed_read p \<longrightarrow>
            snd (pipe_write p src) =
              (if length src \<le> room p then WReturned (int (length src))
               else WReturned (- EPIPE)))"
proof (intro conjI impI)
  show "head p = tail p \<and> closed_write p \<Longrightarrow>
          pipe_read_loop p (Suc len) dst = (p, RReturned (int (length dst)) dst)"
    by simp
  show "head p = tail p \<and> closed_write p \<Longrightarrow> pipe_read p (Suc len) = (p, RReturned 0 [])"
    by (simp add: pipe_read_def)
  show "closed_write p \<Longrightarrow>
          snd (pipe_read p len) = RReturned (int (min len (unread p))) (take len (contents p))"
    using pipe_read_loop_result [OF assms, of len "[]"] length_contents [of p]
    by (simp add: pipe_read_def min_def)
  show "closed_read p \<Longrightarrow>
          snd (pipe_write p src) =
            (if length src \<le> room p then WReturned (int (length src))
             else WReturned (- EPIPE))"
    using pipe_write_loop_result [OF assms, of src 0] by (simp add: pipe_write_def)
qed

theorem pipe_closed_ends_witness:
  "pipe_read \<lparr>pbuf = replicate 4096 0, head = 5, tail = 5,
               closed_read = False, closed_write = True\<rparr> (Suc 2)
     = (\<lparr>pbuf = replicate 4096 0, head = 5, tail = 5,
           closed_read = False, closed_write = True\<rparr>, RReturned 0 []) \<and>
   snd (pipe_write \<lparr>pbuf = replicate 4096 0, head = 4, tail = 5,
                     closed_read = True, closed_write = False\<rparr> [7]) = WReturned (- 15)"
  using pipe_closed_ends [of "\<lparr>pbuf = replicate 4096 0, head = 5, tail = 5,
               closed_read = False, closed_write = True\<rparr>" 2 "[]" "[]"]
    pipe_closed_ends [of "\<lparr>pbuf = replicate 4096 0, head = 4, tail = 5,
                     closed_read = True, closed_write = False\<rparr>" 0 "[]" "[7]"]
  by (simp add: pipe_ok_def PIPE_BUFSZ_val room_def unread_def EPIPE_def)

text \<open>
  C10. For every pipe, the ring holds at most \<open>PAGE_SIZE - 1 = 4095\<close> unread bytes, before
  and after a write, and a write only appends to the unread bytes (it never overwrites
  one). The writer finds the ring full exactly when \<open>(head + 1) mod PAGE_SIZE = tail\<close>,
  that is with 4095 unread bytes. With the reader endpoint open, a write of more bytes than
  the ring has room for buffers what fits and then blocks with the rest; woken on a ring
  that is still full it blocks again, and each byte the reader consumes makes room for one
  byte. A write of at most as many bytes as there is room for returns their count without
  blocking; in particular any write of up to 4095 bytes into an empty pipe does.
\<close>

theorem pipe_ring_capacity:
  assumes "pipe_ok p"
  shows "unread p \<le> PAGE_SIZE - 1 \<and> PAGE_SIZE - 1 = 4095 \<and>
         unread (fst (pipe_write p src)) \<le> PAGE_SIZE - 1 \<and>
         contents (fst (pipe_write p src)) = contents p @ take (PAGE_SIZE - 1 - unread p) src \<and>
         ((head p + 1) mod PAGE_SIZE = tail p \<longleftrightarrow> unread p = PAGE_SIZE - 1) \<and>
         (\<not> closed_read p \<and> PAGE_SIZE - 1 - unread p < length src \<longrightarrow>
            snd (pipe_write p src) =
              WBlocked (PAGE_SIZE - 1 - unread p) (drop (PAGE_SIZE - 1 - unread p) src)) \<and>
         (\<not> closed_read p \<and> unread p = PAGE_SIZE - 1 \<and> src \<noteq> [] \<longrightarrow>
            pipe_write_loop p src tot = (p, WBlocked tot src)) \<and>
         unread (fst (pipe_read p len)) = unread p - len \<and>
         (length src \<le> PAGE_SIZE - 1 - unread p \<longrightarrow>
            snd (pipe_write p src) = WReturned (int (length src))) \<and>
         (head p = tail p \<and> length src \<le> 4095 \<longrightarrow>
            snd (pipe_write p src) = WReturned (int (length src)))"
proof -
  have n: "PIPE_BUFSZ = PAGE_SIZE" by (simp add: PIPE_BUFSZ_def)
  have r: "room p = PAGE_SIZE - 1 - unread p" by (simp add: room_def n)
  have u: "unread p \<le> PAGE_SIZE - 1" using unread_le [of p] by (simp add: n)
  have res: "snd (pipe_write p src) =
     (if length src \<le> room p then WReturned (int (length src))
      else if closed_read p then WReturned (- EPIPE)
      else WBlocked (room p) (drop (room p) src))"
    using pipe_write_loop_result [OF assms, of src 0] by (simp add: pipe_write_def)
  have st: "contents (fst (pipe_write p src)) = contents p @ take (room p) src"
    using pipe_write_loop_state [OF assms, of src 0] by (simp add: pipe_write_def)
  have u': "unread (fst (pipe_write p src)) \<le> PAGE_SIZE - 1"
    using unread_le [of "fst (pipe_write p src)"] by (simp add: n)
  have full: "(head p + 1) mod PAGE_SIZE = tail p \<longleftrightarrow> unread p = PAGE_SIZE - 1"
    using full_iff [OF assms] by (simp add: n)
  have blocked: "pipe_write_loop p src tot = (p, WBlocked tot src)"
    if "\<not> closed_read p \<and> unread p = PAGE_SIZE - 1 \<and> src \<noteq> []"
  proof -
    have "(head p + 1) mod PIPE_BUFSZ = tail p" using that full by (simp add: n)
    then show ?thesis using that by (cases src) simp_all
  qed
  have rd: "unread (fst (pipe_read p len)) = unread p - len"
    using pipe_read_loop_state [OF assms, of len "[]"]
      length_contents [of "fst (pipe_read p len)"] length_contents [of p]
    by (simp add: pipe_read_def)
  have empty: "snd (pipe_write p src) = WReturned (int (length src))"
    if "head p = tail p \<and> length src \<le> 4095"
  proof -
    have "unread p = 0" using that empty_iff [OF assms] by simp
    then show ?thesis using that res by (simp add: room_def PIPE_BUFSZ_val)
  qed
  show ?thesis
    using u u' full blocked rd empty res st unfolding r
    by (simp add: PAGE_SIZE_def)
qed

theorem pipe_ring_capacity_witness:
  "snd (pipe_write \<lparr>pbuf = replicate 4096 0, head = 4095, tail = 1,
                     closed_read = False, closed_write = False\<rparr> [7, 8, 9])
     = WBlocked 1 [8, 9] \<and>
   snd (pipe_write (create_pipe (replicate 4096 0)) (replicate 4095 7)) = WReturned 4095"
  using pipe_ring_capacity [of "\<lparr>pbuf = replicate 4096 0, head = 4095, tail = 1,
                     closed_read = False, closed_write = False\<rparr>" "[7, 8, 9]" 0 0]
    pipe_ring_capacity [of "create_pipe (replicate 4096 0)" "replicate 4095 7" 0 0]
  by (simp add: pipe_ok_def PIPE_BUFSZ_val unread_def create_pipe_def PAGE_SIZE_def)

section \<open>The physical page allocator\<close>

lemma best_fit_Some:
  "best_fit cs cnt i best = Some (k, b) \<Longrightarrow>
     (best = Some (k, b) \<or> (i \<le> k \<and> k < i + length cs \<and> cs ! (k - i) = b \<and> cnt \<le> pagecnt b)) \<and>
     (\<forall>c\<in>set cs. cnt \<le> pagecnt c \<longrightarrow> pagecnt b \<le> pagecnt c) \<and>
     (\<forall>j bb. best = Some (j, bb) \<longrightarrow> pagecnt b \<le> pagecnt bb)"
proof (induction cs arbitrary: i best)
  case Nil
  then show ?case by simp
next
  case (Cons c cs)
  let ?best' = "if cnt \<le> pagecnt c \<and> (case best of None \<Rightarrow> True | Some (j, b) \<Rightarrow> pagecnt c < pagecnt b)
        then Some (i, c) else best"
  have run: "best_fit cs cnt (Suc i) ?best' = Some (k, b)" using Cons.prems by simp
  note ih = Cons.IH [OF run]
  show ?case
  proof (cases "cnt \<le> pagecnt c \<and> (case best of None \<Rightarrow> True | Some (j, b) \<Rightarrow> pagecnt c < pagecnt b)")
    case True
    then have b': "?best' = Some (i, c)" by (rule if_P)
    have le: "pagecnt b \<le> pagecnt c" using ih b' by simp
    have pos: "(i \<le> k \<and> k < i + length (c # cs) \<and> (c # cs) ! (k - i) = b \<and> cnt \<le> pagecnt b)"
      using ih True unfolding b' by (auto simp: Suc_diff_le)
    have "\<forall>j bb. best = Some (j, bb) \<longrightarrow> pagecnt b \<le> pagecnt bb"
      using True le by (auto split: option.splits)
    then show ?thesis using ih le pos by auto
  next
    case False
    then have b': "?best' = best" by (rule if_not_P)
    have old: "\<forall>j bb. best = Some (j, bb) \<longrightarrow> pagecnt b \<le> pagecnt bb"
      using ih unfolding b' by simp
    have c: "cnt \<le> pagecnt c \<longrightarrow> pagecnt b \<le> pagecnt c"
    proof
      assume s: "cnt \<le> pagecnt c"
      then obtain j bb where bb: "best = Some (j, bb)" and "\<not> pagecnt c < pagecnt bb"
        using False by (cases best) auto
      then show "pagecnt b \<le> pagecnt c" using old by fastforce
    qed
    have "best = Some (k, b) \<or> (i \<le> k \<and> k < i + length (c # cs) \<and> (c # cs) ! (k - i) = b \<and> cnt \<le> pagecnt b)"
      using ih unfolding b' by (auto simp: Suc_diff_le)
    then show ?thesis using ih c old by auto
  qed
qed

lemma best_fit_None:
  "best_fit cs cnt i best = None \<Longrightarrow> best = None \<and> (\<forall>c\<in>set cs. \<not> cnt \<le> pagecnt c)"
proof (induction cs arbitrary: i best)
  case Nil
  then show ?case by simp
next
  case (Cons c cs)
  let ?best' = "if cnt \<le> pagecnt c \<and> (case best of None \<Rightarrow> True | Some (j, b) \<Rightarrow> pagecnt c < pagecnt b)
        then Some (i, c) else best"
  have run: "best_fit cs cnt (Suc i) ?best' = None" using Cons.prems by simp
  note ih = Cons.IH [OF run]
  then have n: "?best' = None" by simp
  have f: "\<not> (cnt \<le> pagecnt c \<and> (case best of None \<Rightarrow> True | Some (j, b) \<Rightarrow> pagecnt c < pagecnt b))"
  proof
    assume "cnt \<le> pagecnt c \<and> (case best of None \<Rightarrow> True | Some (j, b) \<Rightarrow> pagecnt c < pagecnt b)"
    then have "?best' = Some (i, c)" by (rule if_P)
    then show False using n by simp
  qed
  then have "?best' = best" by (rule if_not_P)
  then have bn: "best = None" using n by simp
  then have "\<not> cnt \<le> pagecnt c" using f by simp
  then show ?case using ih bn by simp
qed

lemma free_pages_remove:
  assumes "i < length fl"
  shows "free_pages (take i fl @ drop (Suc i) fl) + unat (pagecnt (fl ! i)) = free_pages fl"
proof -
  have "fl = take i fl @ fl ! i # drop (Suc i) fl" using assms by (rule id_take_nth_drop)
  then have "free_pages fl = free_pages (take i fl @ fl ! i # drop (Suc i) fl)" by simp
  then show ?thesis by (simp add: free_pages_def)
qed

lemma free_pages_update:
  assumes "i < length fl"
  shows "free_pages (fl[i := c]) + unat (pagecnt (fl ! i)) = free_pages fl + unat (pagecnt c)"
proof -
  have e: "fl = take i fl @ fl ! i # drop (Suc i) fl" using assms by (rule id_take_nth_drop)
  have "fl[i := c] = take i fl @ c # drop (Suc i) fl" using assms by (rule upd_conv_take_nth_drop)
  then have "free_pages (fl[i := c]) + unat (pagecnt (fl ! i))
      = free_pages (take i fl) + unat (pagecnt c) + free_pages (drop (Suc i) fl) + unat (pagecnt (fl ! i))"
    by (simp add: free_pages_def)
  moreover have "free_pages fl = free_pages (take i fl) + unat (pagecnt (fl ! i)) + free_pages (drop (Suc i) fl)"
    by (subst e) (simp add: free_pages_def)
  ultimately show ?thesis by simp
qed

lemma unat_ucast_cnt: "unat (ucast (cnt::u32) :: u64) = unat cnt"
proof -
  have "unat cnt < 2 ^ 32" using unsigned_less [of cnt, where 'a = nat] by simp
  then have "unat cnt < 2 ^ 64" by (rule less_trans) simp
  then show ?thesis by (simp add: unsigned_ucast_eq take_bit_eq_mod)
qed

lemma ucast_cnt_0: "(ucast (cnt::u32) :: u64) = 0 \<longleftrightarrow> cnt = 0"
  by (metis unat_ucast_cnt unat_eq_zero)

lemma pageptr_nonzero:
  assumes "0 < unat n" "unat n < 2 ^ 52"
  shows "pageptr n \<noteq> 0"
proof -
  have "unat (pageptr n) = unat n * 2 ^ 12 mod 2 ^ 64"
    by (simp add: pageptr_def PAGE_ORDER_def push_bit_eq_mult unat_word_ariths)
  moreover have "unat n * 2 ^ 12 < 2 ^ 64" using assms(2) by simp
  ultimately have "unat (pageptr n) = unat n * 2 ^ 12" by simp
  then have "unat (pageptr n) \<noteq> 0" using assms(1) by simp
  then show ?thesis by (metis unat_0)
qed

lemma alloc_phys_pages_found:
  assumes "alloc_phys_pages fl cnt = (fl', p)" and "p \<noteq> 0"
  shows "\<exists>i b. best_fit fl (ucast cnt) 0 None = Some (i, b) \<and> cnt \<noteq> 0 \<and>
           i < length fl \<and> fl ! i = b \<and> ucast cnt \<le> pagecnt b \<and>
           (\<forall>c\<in>set fl. ucast cnt \<le> pagecnt c \<longrightarrow> pagecnt b \<le> pagecnt c) \<and>
           p = pageptr (first_ppn b) \<and>
           fl' = (if pagecnt b = ucast cnt then take i fl @ drop (Suc i) fl
                  else fl[i := b\<lparr>first_ppn := first_ppn b + ucast cnt,
                                    pagecnt := pagecnt b - ucast cnt\<rparr>])"
proof -
  have c0: "cnt \<noteq> 0" using assms by (auto simp: alloc_phys_pages_def)
  obtain i b where bf: "best_fit fl (ucast cnt) 0 None = Some (i, b)"
    using assms c0 by (cases "best_fit fl (ucast cnt) 0 None") (auto simp: alloc_phys_pages_def)
  note props = best_fit_Some [OF bf]
  have "i < length fl \<and> fl ! i = b \<and> ucast cnt \<le> pagecnt b" using props by simp
  moreover have "\<forall>c\<in>set fl. ucast cnt \<le> pagecnt c \<longrightarrow> pagecnt b \<le> pagecnt c"
    using props by blast
  moreover have "p = pageptr (first_ppn b) \<and>
           fl' = (if pagecnt b = ucast cnt then take i fl @ drop (Suc i) fl
                  else fl[i := b\<lparr>first_ppn := first_ppn b + ucast cnt,
                                    pagecnt := pagecnt b - ucast cnt\<rparr>])"
    using assms c0 bf by (auto simp: alloc_phys_pages_def split: if_splits)
  ultimately show ?thesis using bf c0 by blast
qed

lemma alloc_phys_pages_removes:
  assumes "alloc_phys_pages fl cnt = (fl', p)" and "p \<noteq> 0"
  shows "free_pages fl' + unat cnt = free_pages fl"
proof -
  obtain i b where i: "i < length fl" and b: "fl ! i = b" and le: "ucast cnt \<le> pagecnt b"
    and fl': "fl' = (if pagecnt b = ucast cnt then take i fl @ drop (Suc i) fl
                  else fl[i := b\<lparr>first_ppn := first_ppn b + ucast cnt,
                                    pagecnt := pagecnt b - ucast cnt\<rparr>])"
    using alloc_phys_pages_found [OF assms] by blast
  show ?thesis
  proof (cases "pagecnt b = ucast cnt")
    case True
    then have "unat (pagecnt (fl ! i)) = unat cnt" using b by (simp add: unat_ucast_cnt)
    then show ?thesis using free_pages_remove [OF i] fl' True by simp
  next
    case False
    have "unat (pagecnt b - ucast cnt) = unat (pagecnt b) - unat cnt"
      using le by (simp add: unat_sub unat_ucast_cnt)
    moreover have "unat cnt \<le> unat (pagecnt b)"
      using le by (simp add: word_le_nat_alt unat_ucast_cnt)
    ultimately show ?thesis
      using free_pages_update [OF i, of "b\<lparr>first_ppn := first_ppn b + ucast cnt,
                                    pagecnt := pagecnt b - ucast cnt\<rparr>"] fl' False b
      by simp
  qed
qed

lemma alloc_phys_pages_fails:
  assumes "alloc_phys_pages fl cnt = (fl', 0)" and "list_all chunk_ok fl"
  shows "fl' = fl"
proof (cases "cnt = 0")
  case True
  then show ?thesis using assms by (simp add: alloc_phys_pages_def)
next
  case False
  show ?thesis
  proof (cases "best_fit fl (ucast cnt) 0 None")
    case None
    then show ?thesis using assms False by (simp add: alloc_phys_pages_def)
  next
    case (Some ib)
    obtain i b where ib: "ib = (i, b)" by (cases ib)
    note props = best_fit_Some [OF Some [unfolded ib]]
    have i: "i < length fl" and b: "fl ! i = b" and le: "ucast cnt \<le> pagecnt b"
      using props by simp_all
    have ok: "chunk_ok b" using assms(2) i b by (auto simp: list_all_length)
    have "0 < unat (ucast cnt :: u64)" using False by (simp add: unat_ucast_cnt unat_gt_0)
    then have "0 < unat (pagecnt b)" using le by (simp add: word_le_nat_alt)
    then have "pageptr (first_ppn b) \<noteq> 0"
      using ok by (intro pageptr_nonzero) (simp_all add: chunk_ok_def)
    moreover have "pageptr (first_ppn b) = 0"
      using assms(1) False Some ib by (simp add: alloc_phys_pages_def split: if_splits)
    ultimately show ?thesis by simp
  qed
qed

lemma alloc_phys_pages_ok:
  assumes "alloc_phys_pages fl cnt = (fl', p)" and "list_all chunk_ok fl"
  shows "list_all chunk_ok fl'"
proof (cases "p = 0")
  case True
  then show ?thesis using alloc_phys_pages_fails assms by blast
next
  case False
  obtain i b where i: "i < length fl" and b: "fl ! i = b" and le: "ucast cnt \<le> pagecnt b"
    and fl': "fl' = (if pagecnt b = ucast cnt then take i fl @ drop (Suc i) fl
                  else fl[i := b\<lparr>first_ppn := first_ppn b + ucast cnt,
                                    pagecnt := pagecnt b - ucast cnt\<rparr>])"
    using alloc_phys_pages_found [OF assms(1) False] by blast
  have ok: "chunk_ok b" using assms(2) i b by (auto simp: list_all_length)
  show ?thesis
  proof (cases "pagecnt b = ucast cnt")
    case True
    have "set (take i fl @ drop (Suc i) fl) \<subseteq> set fl"
      using set_take_subset [of i fl] set_drop_subset [of "Suc i" fl] by auto
    then show ?thesis using assms(2) fl' True by (auto simp: list_all_iff)
  next
    case False
    let ?b' = "b\<lparr>first_ppn := first_ppn b + ucast cnt, pagecnt := pagecnt b - ucast cnt\<rparr>"
    have c: "unat cnt \<le> unat (pagecnt b)"
      using le by (simp add: word_le_nat_alt unat_ucast_cnt)
    have s: "unat (pagecnt b - ucast cnt) = unat (pagecnt b) - unat cnt"
      using le by (simp add: unat_sub unat_ucast_cnt)
    have "unat (first_ppn b) + unat cnt < 2 ^ 64"
      using ok c by (simp add: chunk_ok_def)
    then have a: "unat (first_ppn b + ucast cnt) = unat (first_ppn b) + unat cnt"
      by (simp add: unat_word_ariths unat_ucast_cnt)
    have "chunk_ok ?b'" using ok a s c by (simp add: chunk_ok_def)
    moreover have "set (fl[i := ?b']) \<subseteq> insert ?b' (set fl)" by (rule set_update_subset_insert)
    ultimately show ?thesis using assms(2) fl' False by (auto simp: list_all_iff)
  qed
qed

lemma kmalloc_node:
  "kmalloc hp fl sizeof_page_chunk =
     (if \<not> heap_takes_page hp
      then Returns (hp\<lparr>heap_end := heap_end hp - 48\<rparr>, fl, heap_end hp - 32)
      else if snd (alloc_phys_page fl) = 0 then WildStore
      else Returns (if heap_end hp - heap_low hp < 4048
                    then hp\<lparr>heap_end := snd (alloc_phys_page fl) + 4096 - 48,
                            heap_low := snd (alloc_phys_page fl)\<rparr>
                    else hp,
                    fst (alloc_phys_page fl), snd (alloc_phys_page fl) + 4096 - 32))"
  by (simp add: kmalloc_def heap_malloc_actual_def sizeof_page_chunk_def ROUND_UP_def
      HEAP_ALIGN_def HEAP_ALLOC_MAX_def heap_alloc_header_size_def heap_takes_page_def
      Let_def split_beta)

lemma free_phys_pages_eq:
  "free_phys_pages hp fl pp cnt =
     (if pp = 0 \<or> cnt = 0 then Returns (hp, fl)
      else if \<not> heap_takes_page hp
      then Returns (hp\<lparr>heap_end := heap_end hp - 48\<rparr>,
                    \<lparr>first_ppn = pagenum pp, pagecnt = ucast cnt\<rparr> # fl)
      else if snd (alloc_phys_page fl) = 0 then WildStore
      else Returns (if heap_end hp - heap_low hp < 4048
                    then hp\<lparr>heap_end := snd (alloc_phys_page fl) + 4096 - 48,
                            heap_low := snd (alloc_phys_page fl)\<rparr>
                    else hp,
                    \<lparr>first_ppn = pagenum pp, pagecnt = ucast cnt\<rparr> # fst (alloc_phys_page fl)))"
  by (simp add: free_phys_pages_def kmalloc_node)

lemma free_phys_pages_adds:
  assumes "free_phys_pages hp fl pp cnt = Returns (hp', fl')" and "pp \<noteq> 0"
  shows "free_pages fl' + (if cnt \<noteq> 0 \<and> heap_takes_page hp then 1 else 0)
           = free_pages fl + unat cnt"
proof (cases "cnt = 0")
  case True
  then show ?thesis using assms by (simp add: free_phys_pages_eq)
next
  case False
  show ?thesis
  proof (cases "heap_takes_page hp")
    case False
    then show ?thesis using assms \<open>cnt \<noteq> 0\<close>
      by (auto simp: free_phys_pages_eq free_pages_def unat_ucast_cnt)
  next
    case True
    obtain fl1 p1 where a: "alloc_phys_pages fl 1 = (fl1, p1)" by (cases "alloc_phys_pages fl 1")
    have p1: "p1 \<noteq> 0" using assms True \<open>cnt \<noteq> 0\<close> a
      by (auto simp: free_phys_pages_eq alloc_phys_page_def split: if_splits)
    have "free_pages fl1 + 1 = free_pages fl" using alloc_phys_pages_removes [OF a p1] by simp
    moreover have "fl' = \<lparr>first_ppn = pagenum pp, pagecnt = ucast cnt\<rparr> # fl1"
      using assms True \<open>cnt \<noteq> 0\<close> a p1
      by (auto simp: free_phys_pages_eq alloc_phys_page_def split: if_splits)
    ultimately show ?thesis using True \<open>cnt \<noteq> 0\<close>
      by (simp add: free_pages_def unat_ucast_cnt)
  qed
qed

lemma unat_pageptr:
  assumes "unat n < 2 ^ 52"
  shows "unat (pageptr n) = unat n * 4096"
proof -
  have "unat (pageptr n) = unat n * 2 ^ 12 mod 2 ^ 64"
    by (simp add: pageptr_def PAGE_ORDER_def push_bit_eq_mult unat_word_ariths)
  moreover have "unat n * 2 ^ 12 < 2 ^ 64" using assms by simp
  ultimately show ?thesis by simp
qed

lemma pagenum_pageptr:
  assumes "unat n < 2 ^ 52"
  shows "pagenum (pageptr n) = n"
proof -
  have "unat (pagenum (pageptr n)) = unat (pageptr n) div 2 ^ 12"
    by (simp add: pagenum_def PAGE_ORDER_def drop_bit_eq_div unat_div)
  then have "unat (pagenum (pageptr n)) = unat n"
    using unat_pageptr [OF assms] by simp
  then show ?thesis by (simp add: word_unat_eq_iff)
qed

lemma fl_pages_simps:
  "fl_pages [] = {}"
  "fl_pages (c # cs) = chunk_pages c \<union> fl_pages cs"
  "fl_pages (xs @ ys) = fl_pages xs \<union> fl_pages ys"
  by (auto simp: fl_pages_def)

lemma chunks_disjoint_Cons:
  "chunks_disjoint (c # cs) \<longleftrightarrow> chunk_pages c \<inter> fl_pages cs = {} \<and> chunks_disjoint cs"
  by (auto simp: fl_pages_def)

lemma chunks_disjoint_append:
  "chunks_disjoint (xs @ ys) \<longleftrightarrow>
     chunks_disjoint xs \<and> chunks_disjoint ys \<and> fl_pages xs \<inter> fl_pages ys = {}"
proof (induction xs)
  case Nil
  show ?case by (simp add: fl_pages_simps)
next
  case (Cons x xs)
  show ?case
    unfolding append_Cons chunks_disjoint_Cons Cons.IH fl_pages_simps by auto
qed

lemma chunks_middle:
  assumes "chunks_disjoint (xs @ b # ys)"
  shows "chunks_disjoint (xs @ ys)"
    and "fl_pages (xs @ ys) = fl_pages (xs @ b # ys) - chunk_pages b"
    and "chunk_pages c \<subseteq> chunk_pages b \<Longrightarrow> chunks_disjoint (xs @ c # ys)"
    and "chunk_pages c \<subseteq> chunk_pages b \<Longrightarrow>
           fl_pages (xs @ c # ys) = (fl_pages (xs @ b # ys) - chunk_pages b) \<union> chunk_pages c"
proof -
  have d: "chunks_disjoint xs" "chunks_disjoint ys" "chunk_pages b \<inter> fl_pages ys = {}"
      "fl_pages xs \<inter> chunk_pages b = {}" "fl_pages xs \<inter> fl_pages ys = {}"
    using assms unfolding chunks_disjoint_append chunks_disjoint_Cons fl_pages_simps by auto
  show "chunks_disjoint (xs @ ys)"
    using d unfolding chunks_disjoint_append by simp
  show "fl_pages (xs @ ys) = fl_pages (xs @ b # ys) - chunk_pages b"
    using d unfolding fl_pages_simps by auto
  show "chunks_disjoint (xs @ c # ys)" if "chunk_pages c \<subseteq> chunk_pages b"
    using d that unfolding chunks_disjoint_append chunks_disjoint_Cons fl_pages_simps by auto
  show "fl_pages (xs @ c # ys) = (fl_pages (xs @ b # ys) - chunk_pages b) \<union> chunk_pages c"
    if "chunk_pages c \<subseteq> chunk_pages b"
    using d that unfolding fl_pages_simps by auto
qed

lemma chunk_in_fl_pages:
  assumes "i < length fl"
  shows "chunk_pages (fl ! i) \<subseteq> fl_pages fl"
proof -
  have "fl ! i \<in> set fl" using assms by (rule nth_mem)
  then show ?thesis unfolding fl_pages_def by blast
qed

text \<open>What a successful \<open>alloc_phys_pages\<close> does to the pages of the free list.\<close>

lemma alloc_phys_pages_pages:
  assumes a: "alloc_phys_pages fl cnt = (fl', p)" and p: "p \<noteq> 0"
    and ok: "list_all chunk_ok fl" and dj: "chunks_disjoint fl"
  shows "range_pages p cnt \<subseteq> fl_pages fl" and "fl_pages fl' = fl_pages fl - range_pages p cnt"
    and "chunks_disjoint fl'" and "card (range_pages p cnt) = unat cnt"
    and "\<forall>x\<in>range_pages p cnt. 0 < x \<and> x < 2 ^ 52"
proof -
  obtain i b where i: "i < length fl" and b: "fl ! i = b" and le: "ucast cnt \<le> pagecnt b"
    and pp: "p = pageptr (first_ppn b)" and c0: "cnt \<noteq> 0"
    and fl': "fl' = (if pagecnt b = ucast cnt then take i fl @ drop (Suc i) fl
                  else fl[i := b\<lparr>first_ppn := first_ppn b + ucast cnt,
                                    pagecnt := pagecnt b - ucast cnt\<rparr>])"
    using alloc_phys_pages_found [OF a p] by blast
  have okb: "chunk_ok b" using ok i b by (auto simp: list_all_length)
  have c: "unat cnt \<le> unat (pagecnt b)"
    using le by (simp add: word_le_nat_alt unat_ucast_cnt)
  have "0 < unat cnt" using c0 by (simp add: unat_gt_0)
  then have f52: "unat (first_ppn b) < 2 ^ 52" "0 < unat (first_ppn b)"
      "unat (first_ppn b) + unat (pagecnt b) \<le> 2 ^ 52"
    using okb c by (simp_all add: chunk_ok_def)
  have rp: "range_pages p cnt = {unat (first_ppn b) ..< unat (first_ppn b) + unat cnt}"
    unfolding range_pages_def pp pagenum_pageptr [OF f52(1)] ..
  have sub: "range_pages p cnt \<subseteq> chunk_pages b"
    unfolding rp chunk_pages_def using c by auto
  show "range_pages p cnt \<subseteq> fl_pages fl"
    using sub chunk_in_fl_pages [OF i] b by blast
  show "card (range_pages p cnt) = unat cnt" unfolding rp by simp
  show "\<forall>x\<in>range_pages p cnt. 0 < x \<and> x < 2 ^ 52"
    unfolding rp using f52 c by auto
  have e: "fl = take i fl @ b # drop (Suc i) fl"
    using i b id_take_nth_drop by blast
  have dj': "chunks_disjoint (take i fl @ b # drop (Suc i) fl)" using dj e by simp
  show "fl_pages fl' = fl_pages fl - range_pages p cnt" and "chunks_disjoint fl'"
  proof -
    show "fl_pages fl' = fl_pages fl - range_pages p cnt"
    proof (cases "pagecnt b = ucast cnt")
      case True
      then have "unat (pagecnt b) = unat cnt" by (simp add: unat_ucast_cnt)
      then have "chunk_pages b = range_pages p cnt"
        unfolding rp chunk_pages_def by simp
      then show ?thesis
        using chunks_middle(2) [OF dj'] fl' True e by simp
    next
      case False
      let ?b' = "b\<lparr>first_ppn := first_ppn b + ucast cnt, pagecnt := pagecnt b - ucast cnt\<rparr>"
      have s: "unat (pagecnt b - ucast cnt) = unat (pagecnt b) - unat cnt"
        using le by (simp add: unat_sub unat_ucast_cnt)
      have "unat (first_ppn b) + unat cnt < 2 ^ 64" using f52 c by simp
      then have ad: "unat (first_ppn b + ucast cnt) = unat (first_ppn b) + unat cnt"
        by (simp add: unat_word_ariths unat_ucast_cnt)
      have cp: "chunk_pages ?b' = chunk_pages b - range_pages p cnt"
        unfolding rp chunk_pages_def using s ad c by auto
      then have sb: "chunk_pages ?b' \<subseteq> chunk_pages b" by blast
      have u: "fl' = take i fl @ ?b' # drop (Suc i) fl"
        using fl' False i by (simp add: upd_conv_take_nth_drop)
      have "fl_pages fl' = (fl_pages fl - chunk_pages b) \<union> chunk_pages ?b'"
        using chunks_middle(4) [OF dj' sb] u e by simp
      moreover have "chunk_pages b \<subseteq> fl_pages fl"
        using chunk_in_fl_pages [OF i] b by simp
      ultimately show ?thesis using cp sub by auto
    qed
    show "chunks_disjoint fl'"
    proof (cases "pagecnt b = ucast cnt")
      case True
      then show ?thesis using chunks_middle(1) [OF dj'] fl' by simp
    next
      case False
      let ?b' = "b\<lparr>first_ppn := first_ppn b + ucast cnt, pagecnt := pagecnt b - ucast cnt\<rparr>"
      have s: "unat (pagecnt b - ucast cnt) = unat (pagecnt b) - unat cnt"
        using le by (simp add: unat_sub unat_ucast_cnt)
      have "unat (first_ppn b) + unat cnt < 2 ^ 64" using f52 c by simp
      then have ad: "unat (first_ppn b + ucast cnt) = unat (first_ppn b) + unat cnt"
        by (simp add: unat_word_ariths unat_ucast_cnt)
      have sb: "chunk_pages ?b' \<subseteq> chunk_pages b"
        unfolding chunk_pages_def using s ad c by auto
      have u: "fl' = take i fl @ ?b' # drop (Suc i) fl"
        using fl' False i by (simp add: upd_conv_take_nth_drop)
      show ?thesis using chunks_middle(3) [OF dj' sb] u by simp
    qed
  qed
qed

lemma alloc_phys_pages_none:
  assumes "cnt = 0 \<or> (\<forall>c\<in>set fl. \<not> ucast cnt \<le> pagecnt c)"
  shows "alloc_phys_pages fl cnt = (fl, 0)"
proof (cases "cnt = 0")
  case True
  then show ?thesis by (simp add: alloc_phys_pages_def)
next
  case False
  then have no: "\<forall>c\<in>set fl. \<not> ucast cnt \<le> pagecnt c" using assms by simp
  have "best_fit fl (ucast cnt) 0 None = None"
  proof (cases "best_fit fl (ucast cnt) 0 None")
    case None
    then show ?thesis .
  next
    case (Some ib)
    obtain i b where ib: "ib = (i, b)" by (cases ib)
    have "i < length fl \<and> fl ! i = b \<and> ucast cnt \<le> pagecnt b"
      using best_fit_Some [OF Some [unfolded ib]] by simp
    then have "b \<in> set fl \<and> ucast cnt \<le> pagecnt b" using nth_mem by blast
    then show ?thesis using no by blast
  qed
  then show ?thesis using False by (simp add: alloc_phys_pages_def)
qed

lemma alloc_phys_pages_succeeds:
  assumes "cnt \<noteq> 0" "\<exists>c\<in>set fl. ucast cnt \<le> pagecnt c" "list_all chunk_ok fl"
  shows "snd (alloc_phys_pages fl cnt) \<noteq> 0"
proof
  assume z: "snd (alloc_phys_pages fl cnt) = 0"
  have "best_fit fl (ucast cnt) 0 None \<noteq> None"
    using best_fit_None [of fl "ucast cnt" 0 None] assms(2) by blast
  then obtain i b where bf: "best_fit fl (ucast cnt) 0 None = Some (i, b)" by auto
  have i: "i < length fl" and b: "fl ! i = b" and le: "ucast cnt \<le> pagecnt b"
    using best_fit_Some [OF bf] by simp_all
  have ok: "chunk_ok b" using assms(3) i b by (auto simp: list_all_length)
  have "0 < unat (ucast cnt :: u64)" using assms(1) by (simp add: unat_ucast_cnt unat_gt_0)
  then have "0 < unat (pagecnt b)" using le by (simp add: word_le_nat_alt)
  then have "pageptr (first_ppn b) \<noteq> 0"
    using ok by (intro pageptr_nonzero) (simp_all add: chunk_ok_def)
  moreover have "snd (alloc_phys_pages fl cnt) = pageptr (first_ppn b)"
    using assms(1) bf by (simp add: alloc_phys_pages_def)
  ultimately show False using z by simp
qed

lemma freed_chunk:
  assumes c0: "cnt \<noteq> 0" and sub: "range_pages pp cnt \<subseteq> held"
    and bd: "\<forall>x\<in>held. 0 < x \<and> x < (2::nat) ^ 52"
  shows "chunk_pages \<lparr>first_ppn = pagenum pp, pagecnt = ucast cnt\<rparr> = range_pages pp cnt"
    and "chunk_ok \<lparr>first_ppn = pagenum pp, pagecnt = ucast cnt\<rparr>"
    and "card (range_pages pp cnt) = unat cnt"
proof -
  show "chunk_pages \<lparr>first_ppn = pagenum pp, pagecnt = ucast cnt\<rparr> = range_pages pp cnt"
    by (simp add: chunk_pages_def range_pages_def unat_ucast_cnt)
  show "card (range_pages pp cnt) = unat cnt" by (simp add: range_pages_def)
  have pos: "0 < unat cnt" using c0 by (simp add: unat_gt_0)
  then have "unat (pagenum pp) \<in> range_pages pp cnt"
    and "unat (pagenum pp) + unat cnt - 1 \<in> range_pages pp cnt"
    by (auto simp: range_pages_def)
  then have "0 < unat (pagenum pp)" and "unat (pagenum pp) + unat cnt - 1 < 2 ^ 52"
    using sub bd by blast+
  then show "chunk_ok \<lparr>first_ppn = pagenum pp, pagecnt = ucast cnt\<rparr>"
    using pos by (simp add: chunk_ok_def unat_ucast_cnt)
qed

lemma pa_step_keeps:
  assumes st: "pa_step s x = Returns s'" and inv: "pa_inv s" and fo: "free_ok s x"
  shows "pa_inv s' \<and>
         free_pages (pa_free s') + card (pa_held s') = free_pages (pa_free s) + card (pa_held s)"
proof (cases x)
  case (Alloc cnt)
  obtain fl' p where a: "alloc_phys_pages (pa_free s) cnt = (fl', p)"
    by (cases "alloc_phys_pages (pa_free s) cnt")
  have s': "s' = s\<lparr>pa_free := fl',
      pa_held := pa_held s \<union> (if p = 0 then {} else range_pages p cnt)\<rparr>"
    using st Alloc a by simp
  have ok: "list_all chunk_ok (pa_free s)" and dj: "chunks_disjoint (pa_free s)"
    and di: "fl_pages (pa_free s) \<inter> pa_held s = {}" and fin: "finite (pa_held s)"
    and bd: "\<forall>x\<in>pa_held s. 0 < x \<and> x < 2 ^ 52"
    using inv by (simp_all add: pa_inv_def)
  show ?thesis
  proof (cases "p = 0")
    case True
    then have "fl' = pa_free s" using alloc_phys_pages_fails a ok by blast
    then show ?thesis using s' True inv by (simp add: pa_inv_def)
  next
    case False
    note pg = alloc_phys_pages_pages [OF a False ok dj]
    have ok': "list_all chunk_ok fl'" using alloc_phys_pages_ok [OF a ok] .
    have qh: "range_pages p cnt \<inter> pa_held s = {}" using pg(1) di by blast
    have fq: "finite (range_pages p cnt)" by (simp add: range_pages_def)
    have "card (pa_held s \<union> range_pages p cnt) = card (pa_held s) + unat cnt"
      using card_Un_disjoint [OF fin fq] qh pg(4) by (simp add: Int_commute)
    moreover have "free_pages fl' + unat cnt = free_pages (pa_free s)"
      using alloc_phys_pages_removes [OF a False] .
    moreover have "pa_inv s'"
      unfolding pa_inv_def using s' False ok' pg(2,3,5) di fin fq bd by auto
    ultimately show ?thesis using s' False by simp
  qed
next
  case (Free pp cnt)
  have ok: "list_all chunk_ok (pa_free s)" and dj: "chunks_disjoint (pa_free s)"
    and di: "fl_pages (pa_free s) \<inter> pa_held s = {}" and fin: "finite (pa_held s)"
    and bd: "\<forall>x\<in>pa_held s. 0 < x \<and> x < 2 ^ 52"
    using inv by (simp_all add: pa_inv_def)
  show ?thesis
  proof (cases "pp = 0 \<or> cnt = 0")
    case True
    then have "s' = s\<lparr>pa_heap := pa_heap s, pa_free := pa_free s, pa_held := pa_held s\<rparr>"
      using st Free by (auto simp: free_phys_pages_eq)
    then show ?thesis using inv by (simp add: pa_inv_def)
  next
    case False
    then have pp: "pp \<noteq> 0" and c0: "cnt \<noteq> 0" by simp_all
    have sub: "range_pages pp cnt \<subseteq> pa_held s" using fo Free False by simp
    let ?R = "range_pages pp cnt"
    let ?c = "\<lparr>first_ppn = pagenum pp, pagecnt = ucast cnt\<rparr>"
    note fc = freed_chunk [OF c0 sub bd]
    have fr: "finite ?R" by (simp add: range_pages_def)
    have cardR: "card (pa_held s - ?R) + unat cnt = card (pa_held s)"
    proof -
      have "card (pa_held s - ?R) = card (pa_held s) - card ?R"
        using card_Diff_subset [OF fr sub] .
      moreover have "card ?R \<le> card (pa_held s)" using card_mono [OF fin sub] .
      ultimately show ?thesis using fc(3) by simp
    qed
    have rf: "?R \<inter> fl_pages (pa_free s) = {}" using sub di by blast
    show ?thesis
    proof (cases "heap_takes_page (pa_heap s)")
      case False
      have s': "s' = s\<lparr>pa_heap := (pa_heap s)\<lparr>heap_end := heap_end (pa_heap s) - 48\<rparr>,
          pa_free := ?c # pa_free s, pa_held := pa_held s - ?R\<rparr>"
        using st Free pp c0 False by (simp add: free_phys_pages_eq)
      have dc: "chunks_disjoint (?c # pa_free s)"
        unfolding chunks_disjoint_Cons fc(1) using rf dj by simp
      have "pa_inv s'"
        unfolding pa_inv_def using s' ok dc di fin bd fc(1,2) rf
        by (auto simp: fl_pages_simps simp del: chunks_disjoint.simps)
      moreover have "free_pages (?c # pa_free s) = unat cnt + free_pages (pa_free s)"
        by (simp add: free_pages_def unat_ucast_cnt)
      ultimately show ?thesis using s' cardR by simp
    next
      case True
      obtain fl1 q where a: "alloc_phys_pages (pa_free s) 1 = (fl1, q)"
        by (cases "alloc_phys_pages (pa_free s) 1")
      have q: "q \<noteq> 0"
        using st Free pp c0 True a
        by (auto simp: free_phys_pages_eq alloc_phys_page_def split: if_splits)
      obtain hp' fl' where f:
          "free_phys_pages (pa_heap s) (pa_free s) pp cnt = Returns (hp', fl')"
        using st Free by (cases "free_phys_pages (pa_heap s) (pa_free s) pp cnt") auto
      have fl': "fl' = ?c # fl1"
        using f pp c0 True a q
        by (auto simp: free_phys_pages_eq alloc_phys_page_def split: if_splits)
      have s': "s' = s\<lparr>pa_heap := hp', pa_free := ?c # fl1,
          pa_held := (pa_held s - ?R) \<union> range_pages q 1\<rparr>"
        using st Free f fl' pp c0 True a by (simp add: alloc_phys_page_def)
      note pg = alloc_phys_pages_pages [OF a q ok dj]
      have ok1: "list_all chunk_ok fl1" using alloc_phys_pages_ok [OF a ok] .
      let ?Q = "range_pages q 1"
      have fq: "finite ?Q" by (simp add: range_pages_def)
      have qh: "(pa_held s - ?R) \<inter> ?Q = {}" using pg(1) di by blast
      have "card ((pa_held s - ?R) \<union> ?Q) = card (pa_held s - ?R) + 1"
        using card_Un_disjoint [of "pa_held s - ?R" ?Q] fin fq qh pg(4) by simp
      moreover have "free_pages fl1 + 1 = free_pages (pa_free s)"
        using alloc_phys_pages_removes [OF a q] by simp
      moreover have "free_pages (?c # fl1) = unat cnt + free_pages fl1"
        by (simp add: free_pages_def unat_ucast_cnt)
      moreover have dc: "chunks_disjoint (?c # fl1)"
        unfolding chunks_disjoint_Cons fc(1) using rf pg(2,3) by auto
      moreover have "pa_inv s'"
        unfolding pa_inv_def using s' ok1 pg(1,2,5) dc di fin fq bd fc(1,2) rf
        by (auto simp: fl_pages_simps simp del: chunks_disjoint.simps)
      ultimately show ?thesis using s' cardR by simp
    qed
  qed
qed

lemma pa_run_keeps:
  "pa_run s ops = Returns s' \<Longrightarrow> pa_inv s \<Longrightarrow> frees_held s ops \<Longrightarrow>
   pa_inv s' \<and>
   free_pages (pa_free s') + card (pa_held s') = free_pages (pa_free s) + card (pa_held s)"
proof (induction ops arbitrary: s)
  case Nil
  then show ?case by simp
next
  case (Cons x xs)
  obtain s1 where st: "pa_step s x = Returns s1" and run: "pa_run s1 xs = Returns s'"
    using Cons.prems(1) by (cases "pa_step s x") auto
  have fo: "free_ok s x" and fh: "frees_held s1 xs"
    using Cons.prems(3) st by simp_all
  note k1 = pa_step_keeps [OF st Cons.prems(2) fo]
  have "pa_inv s' \<and>
      free_pages (pa_free s') + card (pa_held s') = free_pages (pa_free s1) + card (pa_held s1)"
    using Cons.IH [OF run] k1 fh by simp
  then show ?case using k1 by simp
qed

text \<open>
  Claim C9 as stated fails for \<open>free_phys_pages\<close>: it needs a list node, and when the heap
  has no room for one, \<open>kmalloc\<close> takes a page from the free list in the same call. With
  16 bytes left in the heap and 11 free pages, giving back 2 pages leaves 12 free pages,
  not 13.
\<close>

theorem free_phys_pages_heap_page_counterexample:
  "free_pages [\<lparr>first_ppn = 0x80020, pagecnt = 10\<rparr>, \<lparr>first_ppn = 0x80042, pagecnt = 1\<rparr>] = 11 \<and>
   free_phys_pages \<lparr>heap_low = 0x80010000, heap_end = 0x80010010\<rparr>
       [\<lparr>first_ppn = 0x80020, pagecnt = 10\<rparr>, \<lparr>first_ppn = 0x80042, pagecnt = 1\<rparr>]
       0x80040000 2
     = Returns (\<lparr>heap_low = 0x80042000, heap_end = 0x80042FD0\<rparr>,
         [\<lparr>first_ppn = 0x80040, pagecnt = 2\<rparr>, \<lparr>first_ppn = 0x80020, pagecnt = 10\<rparr>]) \<and>
   free_pages [\<lparr>first_ppn = 0x80040, pagecnt = 2\<rparr>, \<lparr>first_ppn = 0x80020, pagecnt = 10\<rparr>] = 12"
  by code_simp

text \<open>
  Claim C9, amended. Take a run of allocator calls from a free list of ranges of RAM that
  share no page, with no page allocated, in which \<open>free_phys_pages\<close> is only given pages
  that are allocated at the time. At every point of the run that is reached, the page
  counts of the chunks of the free list and the number of pages allocated and not yet
  freed, the pages that the heap took for list nodes among them, add up to the initial
  pool. \<open>alloc_phys_pages(n)\<close> succeeds exactly when \<open>n\<close> is not 0 and some chunk has at
  least \<open>n\<close> pages, and otherwise returns null and leaves the list as it is; when it
  succeeds it takes exactly \<open>n\<close> pages from the front of a chunk that has at least \<open>n\<close>
  pages and no more pages than any other such chunk, removing the chunk on an exact fit
  and advancing its start otherwise. \<open>free_phys_pages(p, n)\<close> with \<open>p\<close> null or \<open>n = 0\<close>
  does nothing. Otherwise it links a chunk of exactly \<open>n\<close> pages at the head of the list:
  the count of free pages rises by \<open>n\<close> when the heap has room for the list node, and by
  \<open>n - 1\<close> when it has not and a page is free, which \<open>kmalloc\<close> takes from the free list
  for the heap.
\<close>

theorem page_allocator_conservation:
  "(list_all chunk_ok fli \<and> chunks_disjoint fli \<and>
      frees_held \<lparr>pa_heap = hpi, pa_free = fli, pa_held = {}\<rparr> ops \<and>
      pa_run \<lparr>pa_heap = hpi, pa_free = fli, pa_held = {}\<rparr> ops = Returns s \<longrightarrow>
        free_pages (pa_free s) + card (pa_held s) = free_pages fli \<and> pa_inv s) \<and>
   (alloc_phys_pages fl cnt = (fl', p) \<and> p \<noteq> 0 \<longrightarrow>
        free_pages fl' + unat cnt = free_pages fl \<and>
        (\<exists>i b. i < length fl \<and> fl ! i = b \<and> ucast cnt \<le> pagecnt b \<and>
           (\<forall>c\<in>set fl. ucast cnt \<le> pagecnt c \<longrightarrow> pagecnt b \<le> pagecnt c) \<and>
           p = pageptr (first_ppn b) \<and>
           fl' = (if pagecnt b = ucast cnt then take i fl @ drop (Suc i) fl
                  else fl[i := b\<lparr>first_ppn := first_ppn b + ucast cnt,
                                    pagecnt := pagecnt b - ucast cnt\<rparr>]))) \<and>
   (ca \<noteq> 0 \<and> (\<exists>c\<in>set fa. ucast ca \<le> pagecnt c) \<and> list_all chunk_ok fa \<longrightarrow>
        snd (alloc_phys_pages fa ca) \<noteq> 0) \<and>
   (cz = 0 \<or> (\<forall>c\<in>set fz. \<not> ucast cz \<le> pagecnt c) \<longrightarrow>
        alloc_phys_pages fz cz = (fz, 0)) \<and>
   (pr \<noteq> 0 \<and> nr \<noteq> 0 \<and> \<not> heap_takes_page hr \<longrightarrow>
        free_phys_pages hr fr pr nr =
          Returns (hr\<lparr>heap_end := heap_end hr - 48\<rparr>,
                   \<lparr>first_ppn = pagenum pr, pagecnt = ucast nr\<rparr> # fr) \<and>
        free_pages (\<lparr>first_ppn = pagenum pr, pagecnt = ucast nr\<rparr> # fr)
          = free_pages fr + unat nr) \<and>
   (pt \<noteq> 0 \<and> nt \<noteq> 0 \<and> heap_takes_page ht \<and> alloc_phys_pages ft 1 = (fu, q) \<and> q \<noteq> 0 \<longrightarrow>
        (\<exists>hp'. free_phys_pages ht ft pt nt =
                 Returns (hp', \<lparr>first_ppn = pagenum pt, pagecnt = ucast nt\<rparr> # fu)) \<and>
        free_pages (\<lparr>first_ppn = pagenum pt, pagecnt = ucast nt\<rparr> # fu) + 1
          = free_pages ft + unat nt) \<and>
   (pn = 0 \<or> nn = 0 \<longrightarrow> free_phys_pages hn fn pn nn = Returns (hn, fn))"
proof (intro conjI impI)
  assume h: "list_all chunk_ok fli \<and> chunks_disjoint fli \<and>
      frees_held \<lparr>pa_heap = hpi, pa_free = fli, pa_held = {}\<rparr> ops \<and>
      pa_run \<lparr>pa_heap = hpi, pa_free = fli, pa_held = {}\<rparr> ops = Returns s"
  have i0: "pa_inv \<lparr>pa_heap = hpi, pa_free = fli, pa_held = {}\<rparr>"
    using h by (simp add: pa_inv_def)
  note k = pa_run_keeps [of "\<lparr>pa_heap = hpi, pa_free = fli, pa_held = {}\<rparr>" ops s, OF _ i0]
  show "free_pages (pa_free s) + card (pa_held s) = free_pages fli"
    using k h by simp
  show "pa_inv s" using k h by simp
next
  assume h: "alloc_phys_pages fl cnt = (fl', p) \<and> p \<noteq> 0"
  show "free_pages fl' + unat cnt = free_pages fl"
    using alloc_phys_pages_removes h by blast
  show "\<exists>i b. i < length fl \<and> fl ! i = b \<and> ucast cnt \<le> pagecnt b \<and>
           (\<forall>c\<in>set fl. ucast cnt \<le> pagecnt c \<longrightarrow> pagecnt b \<le> pagecnt c) \<and>
           p = pageptr (first_ppn b) \<and>
           fl' = (if pagecnt b = ucast cnt then take i fl @ drop (Suc i) fl
                  else fl[i := b\<lparr>first_ppn := first_ppn b + ucast cnt,
                                    pagecnt := pagecnt b - ucast cnt\<rparr>])"
    using alloc_phys_pages_found [of fl cnt fl' p] h by blast
next
  assume "ca \<noteq> 0 \<and> (\<exists>c\<in>set fa. ucast ca \<le> pagecnt c) \<and> list_all chunk_ok fa"
  then show "snd (alloc_phys_pages fa ca) \<noteq> 0"
    using alloc_phys_pages_succeeds [of ca fa] by blast
next
  assume "cz = 0 \<or> (\<forall>c\<in>set fz. \<not> ucast cz \<le> pagecnt c)"
  then show "alloc_phys_pages fz cz = (fz, 0)" by (rule alloc_phys_pages_none)
next
  assume h: "pr \<noteq> 0 \<and> nr \<noteq> 0 \<and> \<not> heap_takes_page hr"
  show "free_phys_pages hr fr pr nr =
          Returns (hr\<lparr>heap_end := heap_end hr - 48\<rparr>,
                   \<lparr>first_ppn = pagenum pr, pagecnt = ucast nr\<rparr> # fr)"
    using h by (simp add: free_phys_pages_eq)
  show "free_pages (\<lparr>first_ppn = pagenum pr, pagecnt = ucast nr\<rparr> # fr)
          = free_pages fr + unat nr"
    by (simp add: free_pages_def unat_ucast_cnt)
next
  assume h: "pt \<noteq> 0 \<and> nt \<noteq> 0 \<and> heap_takes_page ht \<and> alloc_phys_pages ft 1 = (fu, q) \<and> q \<noteq> 0"
  show "\<exists>hp'. free_phys_pages ht ft pt nt =
                 Returns (hp', \<lparr>first_ppn = pagenum pt, pagecnt = ucast nt\<rparr> # fu)"
    using h by (simp add: free_phys_pages_eq alloc_phys_page_def)
  have "free_pages fu + 1 = free_pages ft"
    using alloc_phys_pages_removes [of ft 1 fu q] h by simp
  then show "free_pages (\<lparr>first_ppn = pagenum pt, pagecnt = ucast nt\<rparr> # fu) + 1
          = free_pages ft + unat nt"
    by (simp add: free_pages_def unat_ucast_cnt)
next
  assume "pn = 0 \<or> nn = 0"
  then show "free_phys_pages hn fn pn nn = Returns (hn, fn)"
    by (auto simp: free_phys_pages_eq)
qed

theorem page_allocator_conservation_witness:
  "(free_pages (pa_free \<lparr>pa_heap = \<lparr>heap_low = 0x80010000, heap_end = 0x800100D0\<rparr>,
        pa_free = [\<lparr>first_ppn = 0x80040, pagecnt = 2\<rparr>, \<lparr>first_ppn = 0x80020, pagecnt = 10\<rparr>],
        pa_held = {0x80042}\<rparr>)
      + card (pa_held \<lparr>pa_heap = \<lparr>heap_low = 0x80010000, heap_end = 0x800100D0\<rparr>,
        pa_free = [\<lparr>first_ppn = 0x80040, pagecnt = 2\<rparr>, \<lparr>first_ppn = 0x80020, pagecnt = 10\<rparr>],
        pa_held = {0x80042}\<rparr>)
      = free_pages [\<lparr>first_ppn = 0x80020, pagecnt = 10\<rparr>, \<lparr>first_ppn = 0x80040, pagecnt = 3\<rparr>] \<and>
    pa_inv \<lparr>pa_heap = \<lparr>heap_low = 0x80010000, heap_end = 0x800100D0\<rparr>,
        pa_free = [\<lparr>first_ppn = 0x80040, pagecnt = 2\<rparr>, \<lparr>first_ppn = 0x80020, pagecnt = 10\<rparr>],
        pa_held = {0x80042}\<rparr>) \<and>
   pa_run \<lparr>pa_heap = \<lparr>heap_low = 0x80010000, heap_end = 0x80010100\<rparr>,
           pa_free = [\<lparr>first_ppn = 0x80020, pagecnt = 10\<rparr>, \<lparr>first_ppn = 0x80040, pagecnt = 3\<rparr>],
           pa_held = {}\<rparr> [Alloc 2, Alloc 1, Free 0x80040000 2]
     = Returns \<lparr>pa_heap = \<lparr>heap_low = 0x80010000, heap_end = 0x800100D0\<rparr>,
        pa_free = [\<lparr>first_ppn = 0x80040, pagecnt = 2\<rparr>, \<lparr>first_ppn = 0x80020, pagecnt = 10\<rparr>],
        pa_held = {0x80042}\<rparr> \<and>
   free_pages [\<lparr>first_ppn = 0x80020, pagecnt = 10\<rparr>, \<lparr>first_ppn = 0x80040, pagecnt = 3\<rparr>] = 13 \<and>
   (free_pages [\<lparr>first_ppn = 0x80020, pagecnt = 10\<rparr>, \<lparr>first_ppn = 0x80042, pagecnt = 1\<rparr>]
        + unat (2 :: u32)
      = free_pages [\<lparr>first_ppn = 0x80020, pagecnt = 10\<rparr>, \<lparr>first_ppn = 0x80040, pagecnt = 3\<rparr>] \<and>
    (\<exists>i b. i < length [\<lparr>first_ppn = 0x80020, pagecnt = 10\<rparr>, \<lparr>first_ppn = 0x80040, pagecnt = 3\<rparr>] \<and>
       [\<lparr>first_ppn = 0x80020, pagecnt = 10\<rparr>, \<lparr>first_ppn = 0x80040, pagecnt = 3\<rparr>] ! i = b \<and>
       ucast (2 :: u32) \<le> pagecnt b \<and>
       (\<forall>c\<in>set [\<lparr>first_ppn = 0x80020, pagecnt = 10\<rparr>, \<lparr>first_ppn = 0x80040, pagecnt = 3\<rparr>].
          ucast (2 :: u32) \<le> pagecnt c \<longrightarrow> pagecnt b \<le> pagecnt c) \<and>
       (0x80040000 :: u64) = pageptr (first_ppn b) \<and>
       [\<lparr>first_ppn = 0x80020, pagecnt = 10\<rparr>, \<lparr>first_ppn = 0x80042, pagecnt = 1\<rparr>] =
         (if pagecnt b = ucast (2 :: u32)
          then take i [\<lparr>first_ppn = 0x80020, pagecnt = 10\<rparr>, \<lparr>first_ppn = 0x80040, pagecnt = 3\<rparr>] @
               drop (Suc i) [\<lparr>first_ppn = 0x80020, pagecnt = 10\<rparr>, \<lparr>first_ppn = 0x80040, pagecnt = 3\<rparr>]
          else [\<lparr>first_ppn = 0x80020, pagecnt = 10\<rparr>, \<lparr>first_ppn = 0x80040, pagecnt = 3\<rparr>]
                 [i := b\<lparr>first_ppn := first_ppn b + ucast (2 :: u32),
                          pagecnt := pagecnt b - ucast (2 :: u32)\<rparr>]))) \<and>
   snd (alloc_phys_pages [\<lparr>first_ppn = 0x80020, pagecnt = 10\<rparr>, \<lparr>first_ppn = 0x80040, pagecnt = 3\<rparr>] 2)
     \<noteq> 0 \<and>
   alloc_phys_pages [\<lparr>first_ppn = 0x80020, pagecnt = 10\<rparr>, \<lparr>first_ppn = 0x80040, pagecnt = 3\<rparr>] 11
     = ([\<lparr>first_ppn = 0x80020, pagecnt = 10\<rparr>, \<lparr>first_ppn = 0x80040, pagecnt = 3\<rparr>], 0) \<and>
   (free_phys_pages \<lparr>heap_low = 0x80010000, heap_end = 0x80010100\<rparr>
        [\<lparr>first_ppn = 0x80020, pagecnt = 10\<rparr>] 0x80040000 2
      = Returns (\<lparr>heap_low = 0x80010000, heap_end = 0x80010100\<rparr>
                   \<lparr>heap_end := heap_end \<lparr>heap_low = 0x80010000, heap_end = 0x80010100\<rparr> - 48\<rparr>,
                 \<lparr>first_ppn = pagenum 0x80040000, pagecnt = ucast (2 :: u32)\<rparr> #
                 [\<lparr>first_ppn = 0x80020, pagecnt = 10\<rparr>]) \<and>
    free_pages (\<lparr>first_ppn = pagenum 0x80040000, pagecnt = ucast (2 :: u32)\<rparr> #
                [\<lparr>first_ppn = 0x80020, pagecnt = 10\<rparr>])
      = free_pages [\<lparr>first_ppn = 0x80020, pagecnt = 10\<rparr>] + unat (2 :: u32)) \<and>
   ((\<exists>hp'. free_phys_pages \<lparr>heap_low = 0x80010000, heap_end = 0x80010010\<rparr>
        [\<lparr>first_ppn = 0x80020, pagecnt = 10\<rparr>, \<lparr>first_ppn = 0x80042, pagecnt = 1\<rparr>] 0x80040000 2
      = Returns (hp', \<lparr>first_ppn = pagenum 0x80040000, pagecnt = ucast (2 :: u32)\<rparr> #
                      [\<lparr>first_ppn = 0x80020, pagecnt = 10\<rparr>])) \<and>
    free_pages (\<lparr>first_ppn = pagenum 0x80040000, pagecnt = ucast (2 :: u32)\<rparr> #
                [\<lparr>first_ppn = 0x80020, pagecnt = 10\<rparr>]) + 1
      = free_pages [\<lparr>first_ppn = 0x80020, pagecnt = 10\<rparr>, \<lparr>first_ppn = 0x80042, pagecnt = 1\<rparr>]
        + unat (2 :: u32)) \<and>
   free_phys_pages \<lparr>heap_low = 0x80010000, heap_end = 0x80010100\<rparr>
       [\<lparr>first_ppn = 0x80020, pagecnt = 10\<rparr>] 0 2
     = Returns (\<lparr>heap_low = 0x80010000, heap_end = 0x80010100\<rparr>,
                [\<lparr>first_ppn = 0x80020, pagecnt = 10\<rparr>])"
proof -
  let ?hp = "\<lparr>heap_low = 0x80010000, heap_end = 0x80010100\<rparr>"
  let ?hf = "\<lparr>heap_low = 0x80010000, heap_end = 0x80010010\<rparr>"
  let ?fl0 = "[\<lparr>first_ppn = 0x80020, pagecnt = 10\<rparr>, \<lparr>first_ppn = 0x80040, pagecnt = 3\<rparr>]"
  let ?fl1 = "[\<lparr>first_ppn = 0x80020, pagecnt = 10\<rparr>, \<lparr>first_ppn = 0x80042, pagecnt = 1\<rparr>]"
  let ?fl2 = "[\<lparr>first_ppn = 0x80020, pagecnt = 10\<rparr>]"
  let ?ops = "[Alloc 2, Alloc 1, Free 0x80040000 2]"
  let ?s = "\<lparr>pa_heap = \<lparr>heap_low = 0x80010000, heap_end = 0x800100D0\<rparr>,
        pa_free = [\<lparr>first_ppn = 0x80040, pagecnt = 2\<rparr>, \<lparr>first_ppn = 0x80020, pagecnt = 10\<rparr>],
        pa_held = {0x80042}\<rparr>"
  note T = page_allocator_conservation [where hpi = ?hp and fli = ?fl0 and ops = ?ops and s = ?s
      and fl = ?fl0 and cnt = 2 and fl' = ?fl1 and p = "0x80040000"
      and fa = ?fl0 and ca = 2 and fz = ?fl0 and cz = 11
      and hr = ?hp and fr = ?fl2 and pr = "0x80040000" and nr = 2
      and ht = ?hf and ft = ?fl1 and pt = "0x80040000" and nt = 2 and fu = ?fl2 and q = "0x80042000"
      and hn = ?hp and fn = ?fl2 and pn = 0 and nn = 2]
  have ok: "list_all chunk_ok ?fl0"
    by (simp add: chunk_ok_def)
  have a1: "alloc_phys_pages ?fl0 2 = (?fl1, 0x80040000)"
    by code_simp
  have a2: "alloc_phys_pages ?fl1 1 = (?fl2, 0x80042000)"
    by code_simp
  have f: "free_phys_pages ?hp ?fl2 0x80040000 2 =
      Returns (\<lparr>heap_low = 0x80010000, heap_end = 0x800100D0\<rparr>,
        [\<lparr>first_ppn = 0x80040, pagecnt = 2\<rparr>, \<lparr>first_ppn = 0x80020, pagecnt = 10\<rparr>])"
    by code_simp
  have nt: "\<not> heap_takes_page ?hp"
    by code_simp
  have r2: "range_pages 0x80040000 2 = {0x80040, 0x80041}"
    by (auto simp: range_pages_def pagenum_def PAGE_ORDER_def drop_bit_eq_div)
  have r1: "range_pages 0x80042000 1 = {0x80042}"
    by (auto simp: range_pages_def pagenum_def PAGE_ORDER_def drop_bit_eq_div)
  have dj: "chunks_disjoint ?fl0"
    by (auto simp: chunk_pages_def)
  have fh: "frees_held \<lparr>pa_heap = ?hp, pa_free = ?fl0, pa_held = {}\<rparr> ?ops"
    by (simp add: a1 a2 f nt r1 r2)
  have pr: "pa_run \<lparr>pa_heap = ?hp, pa_free = ?fl0, pa_held = {}\<rparr> ?ops = Returns ?s"
    by (simp add: a1 a2 f nt r1 r2)
  have run: "chunks_disjoint ?fl0 \<and>
      frees_held \<lparr>pa_heap = ?hp, pa_free = ?fl0, pa_held = {}\<rparr> ?ops \<and>
      pa_run \<lparr>pa_heap = ?hp, pa_free = ?fl0, pa_held = {}\<rparr> ?ops = Returns ?s"
    using dj fh pr by blast
  have h1: "list_all chunk_ok ?fl0 \<and> chunks_disjoint ?fl0 \<and>
      frees_held \<lparr>pa_heap = ?hp, pa_free = ?fl0, pa_held = {}\<rparr> ?ops \<and>
      pa_run \<lparr>pa_heap = ?hp, pa_free = ?fl0, pa_held = {}\<rparr> ?ops = Returns ?s"
    using ok run by blast
  have h2: "alloc_phys_pages ?fl0 2 = (?fl1, 0x80040000) \<and> (0x80040000 :: u64) \<noteq> 0"
    by code_simp
  have h3a: "(2 :: u32) \<noteq> 0 \<and> (\<exists>c\<in>set ?fl0. ucast (2 :: u32) \<le> pagecnt c)"
    by code_simp
  have h3: "(2 :: u32) \<noteq> 0 \<and> (\<exists>c\<in>set ?fl0. ucast (2 :: u32) \<le> pagecnt c) \<and> list_all chunk_ok ?fl0"
    using h3a ok by blast
  have h4: "(11 :: u32) = 0 \<or> (\<forall>c\<in>set ?fl0. \<not> ucast (11 :: u32) \<le> pagecnt c)"
    by code_simp
  have h5: "(0x80040000 :: u64) \<noteq> 0 \<and> (2 :: u32) \<noteq> 0 \<and> \<not> heap_takes_page ?hp"
    by code_simp
  have h6: "(0x80040000 :: u64) \<noteq> 0 \<and> (2 :: u32) \<noteq> 0 \<and> heap_takes_page ?hf \<and>
      alloc_phys_pages ?fl1 1 = (?fl2, 0x80042000) \<and> (0x80042000 :: u64) \<noteq> 0"
    by code_simp
  have h7: "(0 :: u64) = 0 \<or> (2 :: u32) = 0"
    by simp
  have f13: "free_pages ?fl0 = 13" by code_simp
  note T2 = T [THEN conjunct2]
  note T3 = T2 [THEN conjunct2]
  note T4 = T3 [THEN conjunct2]
  note T5 = T4 [THEN conjunct2]
  note T6 = T5 [THEN conjunct2]
  note c1 = T [THEN conjunct1, THEN mp, OF h1]
  note c2 = T2 [THEN conjunct1, THEN mp, OF h2]
  note c3 = T3 [THEN conjunct1, THEN mp, OF h3]
  note c4 = T4 [THEN conjunct1, THEN mp, OF h4]
  note c5 = T5 [THEN conjunct1, THEN mp, OF h5]
  note c6 = T6 [THEN conjunct1, THEN mp, OF h6]
  note c7 = T6 [THEN conjunct2, THEN mp, OF h7]
  show ?thesis
    using c1 c2 c3 c4 c5 c6 c7 pr f13 by blast
qed

section \<open>System calls through the trap layer\<close>

text \<open>
  C1, as stated, fails: a system call with the unassigned number 99 fails with
  \<open>-ENOTSUP\<close>; the trap layer stores \<open>-3\<close> in \<open>a0\<close> and advances the pc, and then
  calls \<open>process_exit\<close> instead of resuming the process.
\<close>

theorem failing_syscall_counterexample:
  "handle_syscall (\<lambda>n t k. Some (0, k))
     \<lparr>a0 = 5, a1 = 0, a2 = 0, a3 = 0, a4 = 0, a5 = 0, a6 = 0, a7 = 99, sepc = 0xC0000010\<rparr>
     \<lparr>mem = (\<lambda>p. zero_page), free_chunk_list = [], kheap = \<lparr>heap_low = 0, heap_end = 0\<rparr>,
      satp = 0\<rparr>
   = Some (\<lparr>a0 = - 3, a1 = 0, a2 = 0, a3 = 0, a4 = 0, a5 = 0, a6 = 0, a7 = 99,
            sepc = 0xC0000014\<rparr>,
           \<lparr>mem = (\<lambda>p. zero_page), free_chunk_list = [], kheap = \<lparr>heap_low = 0, heap_end = 0\<rparr>,
            satp = 0\<rparr>) \<and>
   handle_umode_exception (\<lambda>n t k. Some (0, k)) RISCV_SCAUSE_ECALL_FROM_UMODE
     \<lparr>a0 = 5, a1 = 0, a2 = 0, a3 = 0, a4 = 0, a5 = 0, a6 = 0, a7 = 99, sepc = 0xC0000010\<rparr> 0
     \<lparr>mem = (\<lambda>p. zero_page), free_chunk_list = [], kheap = \<lparr>heap_low = 0, heap_end = 0\<rparr>,
      satp = 0\<rparr>
   = ProcessExit \<lparr>mem = (\<lambda>p. zero_page), free_chunk_list = [],
                  kheap = \<lparr>heap_low = 0, heap_end = 0\<rparr>, satp = 0\<rparr>"
  by (simp add: handle_umode_exception_def handle_syscall_def syscall_def syscall_numbers_def
      ENOTSUP_def word_sless_alt)

text \<open>
  C1, amended. For every system call issued from user mode whose handler returns to the
  dispatcher, the trap layer advances the saved user pc by 4 and places the dispatcher's
  return value in \<open>a0\<close>; a number that is not a system call gives \<open>-ENOTSUP\<close>. When the
  value is not negative, the process continues at the next instruction with it. When the
  call fails, so that the value is a negative error code, the trap layer calls
  \<open>process_exit\<close>: the process is terminated and does not see the code.
\<close>

theorem syscall_trap_result:
  "(syscall handlers (tfr\<lparr>sepc := sepc tfr + 4\<rparr>) st = Some (r, st') \<longrightarrow>
      handle_syscall handlers tfr st = Some (tfr\<lparr>sepc := sepc tfr + 4, a0 := r\<rparr>, st') \<and>
      handle_umode_exception handlers RISCV_SCAUSE_ECALL_FROM_UMODE tfr stval st =
        (if r <s 0 then ProcessExit st' else Resume (tfr\<lparr>sepc := sepc tfr + 4, a0 := r\<rparr>) st')) \<and>
   (syscall handlers (tfr\<lparr>sepc := sepc tfr + 4\<rparr>) st = None \<longrightarrow>
      handle_umode_exception handlers RISCV_SCAUSE_ECALL_FROM_UMODE tfr stval st = SyscallGone) \<and>
   (a7 tfr \<notin> set syscall_numbers \<longrightarrow>
      syscall handlers (tfr\<lparr>sepc := sepc tfr + 4\<rparr>) st = Some (- ENOTSUP, st) \<and>
      handle_umode_exception handlers RISCV_SCAUSE_ECALL_FROM_UMODE tfr stval st = ProcessExit st)"
  by (simp add: handle_umode_exception_def handle_syscall_def syscall_def ENOTSUP_def
      word_sless_alt)

theorem syscall_trap_result_witness:
  "handle_umode_exception (\<lambda>n t k. Some (if n = 16 then - EBADFD else 0, k))
     RISCV_SCAUSE_ECALL_FROM_UMODE
     \<lparr>a0 = 77, a1 = 0, a2 = 0, a3 = 0, a4 = 0, a5 = 0, a6 = 0, a7 = 16, sepc = 0xC0000010\<rparr> 0
     \<lparr>mem = (\<lambda>p. zero_page), free_chunk_list = [], kheap = \<lparr>heap_low = 0, heap_end = 0\<rparr>,
      satp = 0\<rparr>
   = ProcessExit \<lparr>mem = (\<lambda>p. zero_page), free_chunk_list = [],
                  kheap = \<lparr>heap_low = 0, heap_end = 0\<rparr>, satp = 0\<rparr> \<and>
   handle_umode_exception (\<lambda>n t k. Some (if n = 16 then - EBADFD else 0, k))
     RISCV_SCAUSE_ECALL_FROM_UMODE
     \<lparr>a0 = 77, a1 = 0, a2 = 0, a3 = 0, a4 = 0, a5 = 0, a6 = 0, a7 = 4, sepc = 0xC0000010\<rparr> 0
     \<lparr>mem = (\<lambda>p. zero_page), free_chunk_list = [], kheap = \<lparr>heap_low = 0, heap_end = 0\<rparr>,
      satp = 0\<rparr>
   = Resume \<lparr>a0 = 0, a1 = 0, a2 = 0, a3 = 0, a4 = 0, a5 = 0, a6 = 0, a7 = 4, sepc = 0xC0000014\<rparr>
       \<lparr>mem = (\<lambda>p. zero_page), free_chunk_list = [],
        kheap = \<lparr>heap_low = 0, heap_end = 0\<rparr>, satp = 0\<rparr>"
  using syscall_trap_result [of "\<lambda>n t k. Some (if n = 16 then - EBADFD else 0, k)"
      "\<lparr>a0 = 77, a1 = 0, a2 = 0, a3 = 0, a4 = 0, a5 = 0, a6 = 0, a7 = 16, sepc = 0xC0000010\<rparr>"
      "\<lparr>mem = (\<lambda>p. zero_page), free_chunk_list = [], kheap = \<lparr>heap_low = 0, heap_end = 0\<rparr>,
        satp = 0\<rparr>" "- EBADFD"
      "\<lparr>mem = (\<lambda>p. zero_page), free_chunk_list = [], kheap = \<lparr>heap_low = 0, heap_end = 0\<rparr>,
        satp = 0\<rparr>" 0]
    syscall_trap_result [of "\<lambda>n t k. Some (if n = 16 then - EBADFD else 0, k)"
      "\<lparr>a0 = 77, a1 = 0, a2 = 0, a3 = 0, a4 = 0, a5 = 0, a6 = 0, a7 = 4, sepc = 0xC0000010\<rparr>"
      "\<lparr>mem = (\<lambda>p. zero_page), free_chunk_list = [], kheap = \<lparr>heap_low = 0, heap_end = 0\<rparr>,
        satp = 0\<rparr>" 0
      "\<lparr>mem = (\<lambda>p. zero_page), free_chunk_list = [], kheap = \<lparr>heap_low = 0, heap_end = 0\<rparr>,
        satp = 0\<rparr>" 0]
  by (simp add: syscall_def syscall_numbers_def EBADFD_def word_sless_alt)

section \<open>User page faults\<close>

































section \<open>Joining a thread\<close>

lemma thread_join_exited_child:
  assumes "0 < tid" "tid < int NTHR" "thrtab k (nat tid) = Some c"
    "parent (threads k c) = Some (TP k)" "state (threads k c) = THREAD_EXITED"
  shows "\<exists>k'. thread_join k tid = Returned tid k' \<and> thrtab k' (nat tid) = None \<and>
           thread_join k' tid = Faults"
proof -
  obtain k' where r: "thread_reclaim k tid = Some k'" and t: "thrtab k' (nat tid) = None"
    using assms by (simp add: thread_reclaim_def Let_def)
  have j: "thread_join k tid = Returned tid k'"
    using assms r by (simp add: thread_join_def Let_def)
  have "thread_join k' tid = Faults"
    using assms(1,2) t by (simp add: thread_join_def Let_def)
  with j t show ?thesis by blast
qed

lemma thread_join_running_child:
  assumes "0 < tid" "tid < int NTHR" "thrtab k (nat tid) = Some c"
    "parent (threads k c) = Some (TP k)" "state (threads k c) \<noteq> THREAD_EXITED"
    "state (threads k (TP k)) = THREAD_RUNNING"
  shows "\<exists>k'. condition_wait k (ChildExit c) = Some k' \<and> thread_join k tid = Waits k'"
  using assms by (simp add: thread_join_def condition_wait_def Let_def)

lemma thread_join_not_child:
  assumes "0 < tid" "tid < int NTHR" "thrtab k (nat tid) = Some c"
    "parent (threads k c) \<noteq> Some (TP k)"
  shows "thread_join k tid = Returned (- EINVAL) k"
  using assms by (simp add: thread_join_def Let_def)

lemma thread_join_no_thread:
  assumes "tid \<noteq> 0" "tid < 0 \<or> int NTHR \<le> tid \<or> thrtab k (nat tid) = None"
  shows "thread_join k tid = Faults"
  using assms by (auto simp: thread_join_def Let_def)

text \<open>
  Claim C5 (what \<open>thread_join\<close> does). A thread that waits for a child of its own that
  has not exited is suspended on the child's \<open>child_exit\<close> condition. Once the child
  has exited, the join returns the child's id and clears its slot of the thread table;
  a second join of the same id then finds the slot empty and reads \<open>child->state\<close>
  through the null pointer: it faults, it does not return \<open>-EINVAL\<close>. A join of a thread
  that exists and is not a child of the caller returns \<open>-EINVAL\<close> and changes nothing.
  A join of any other id than 0 that names no thread (an empty slot, or a number outside
  the table) faults in the same way.
\<close>

theorem thread_join_outcomes:
  "(0 < tid \<and> tid < int NTHR \<and> thrtab k (nat tid) = Some c \<and>
      parent (threads k c) = Some (TP k) \<and> state (threads k c) = THREAD_EXITED \<longrightarrow>
        (\<exists>k'. thread_join k tid = Returned tid k' \<and> thrtab k' (nat tid) = None \<and>
              thread_join k' tid = Faults \<and> thread_join k' tid \<noteq> Returned (- EINVAL) k')) \<and>
   (0 < tidw \<and> tidw < int NTHR \<and> thrtab kw (nat tidw) = Some cw \<and>
      parent (threads kw cw) = Some (TP kw) \<and> state (threads kw cw) \<noteq> THREAD_EXITED \<and>
      state (threads kw (TP kw)) = THREAD_RUNNING \<longrightarrow>
        (\<exists>k'. condition_wait kw (ChildExit cw) = Some k' \<and> thread_join kw tidw = Waits k')) \<and>
   (0 < tidn \<and> tidn < int NTHR \<and> thrtab kn (nat tidn) = Some cn \<and>
      parent (threads kn cn) \<noteq> Some (TP kn) \<longrightarrow>
        thread_join kn tidn = Returned (- EINVAL) kn) \<and>
   (tide \<noteq> 0 \<and> (tide < 0 \<or> int NTHR \<le> tide \<or> thrtab ke (nat tide) = None) \<longrightarrow>
        thread_join ke tide = Faults)"
proof (intro conjI impI)
  assume h: "0 < tid \<and> tid < int NTHR \<and> thrtab k (nat tid) = Some c \<and>
      parent (threads k c) = Some (TP k) \<and> state (threads k c) = THREAD_EXITED"
  obtain k' where "thread_join k tid = Returned tid k'" "thrtab k' (nat tid) = None"
      "thread_join k' tid = Faults"
    using thread_join_exited_child [of tid k c] h by blast
  then show "\<exists>k'. thread_join k tid = Returned tid k' \<and> thrtab k' (nat tid) = None \<and>
              thread_join k' tid = Faults \<and> thread_join k' tid \<noteq> Returned (- EINVAL) k'"
    by auto
next
  assume "0 < tidw \<and> tidw < int NTHR \<and> thrtab kw (nat tidw) = Some cw \<and>
      parent (threads kw cw) = Some (TP kw) \<and> state (threads kw cw) \<noteq> THREAD_EXITED \<and>
      state (threads kw (TP kw)) = THREAD_RUNNING"
  then show "\<exists>k'. condition_wait kw (ChildExit cw) = Some k' \<and> thread_join kw tidw = Waits k'"
    using thread_join_running_child [of tidw kw cw] by blast
next
  assume "0 < tidn \<and> tidn < int NTHR \<and> thrtab kn (nat tidn) = Some cn \<and>
      parent (threads kn cn) \<noteq> Some (TP kn)"
  then show "thread_join kn tidn = Returned (- EINVAL) kn"
    using thread_join_not_child [of tidn kn cn] by blast
next
  assume "tide \<noteq> 0 \<and> (tide < 0 \<or> int NTHR \<le> tide \<or> thrtab ke (nat tide) = None)"
  then show "thread_join ke tide = Faults"
    using thread_join_no_thread [of tide ke] by blast
qed

theorem thread_join_outcomes_witness:
  "(\<exists>k'. thread_join example_child_exited 1 = Returned 1 k' \<and> thrtab k' (nat 1) = None \<and>
         thread_join k' 1 = Faults \<and> thread_join k' 1 \<noteq> Returned (- EINVAL) k') \<and>
   (\<exists>k'. condition_wait example_spawned (ChildExit 200) = Some k' \<and>
         thread_join example_spawned 1 = Waits k') \<and>
   thread_join example_child_running 31 = Returned (- EINVAL) example_child_running \<and>
   thread_join example_child_exited 5 = Faults"
proof -
  have a: "0 < (1::int) \<and> 1 < int NTHR \<and> thrtab example_child_exited (nat 1) = Some 200 \<and>
      parent (threads example_child_exited 200) = Some (TP example_child_exited) \<and>
      state (threads example_child_exited 200) = THREAD_EXITED"
    by code_simp
  have b: "0 < (1::int) \<and> 1 < int NTHR \<and> thrtab example_spawned (nat 1) = Some 200 \<and>
      parent (threads example_spawned 200) = Some (TP example_spawned) \<and>
      state (threads example_spawned 200) \<noteq> THREAD_EXITED \<and>
      state (threads example_spawned (TP example_spawned)) = THREAD_RUNNING"
    by code_simp
  have c: "0 < (31::int) \<and> 31 < int NTHR \<and> thrtab example_child_running (nat 31) = Some 101 \<and>
      parent (threads example_child_running 101) \<noteq> Some (TP example_child_running)"
    by code_simp
  have d: "(5::int) \<noteq> 0 \<and> ((5::int) < 0 \<or> int NTHR \<le> 5 \<or>
      thrtab example_child_exited (nat 5) = None)"
    by code_simp
  show ?thesis
    using thread_join_outcomes [of 1 example_child_exited 200 1 example_spawned 200
        31 example_child_running 101 5 example_child_exited] a b c d
    by blast
qed

section \<open>Locks\<close>

lemma fold_wake_kernel:
  "locks (fold (\<lambda>t k'. wake k' t) ws k) = locks k"
  "TP (fold (\<lambda>t k'. wake k' t) ws k) = TP k"
  "thrtab (fold (\<lambda>t k'. wake k' t) ws k) = thrtab k"
  by (induction ws arbitrary: k) (simp_all add: wake_def)

lemma fold_wake_thread:
  "lock_list (threads (fold (\<lambda>t k'. wake k' t) ws k) t) = lock_list (threads k t)"
  "thr_id (threads (fold (\<lambda>t k'. wake k' t) ws k) t) = thr_id (threads k t)"
  "state (threads (fold (\<lambda>t k'. wake k' t) ws k) t) =
     (if t \<in> set ws then THREAD_READY else state (threads k t))"
  by (induction ws arbitrary: k) (auto simp: wake_def)

lemma broadcast_kernel:
  "TP (condition_broadcast k c) = TP k"
  "owner (locks (condition_broadcast k c) l) = owner (locks k l)"
  "count (locks (condition_broadcast k c) l) = count (locks k l)"
  "cv (locks (condition_broadcast k c) l) = (if c = LockCv l then [] else cv (locks k l))"
  by (cases c; simp add: condition_broadcast_def set_wait_list_def fold_wake_kernel)+

lemma broadcast_thread:
  "lock_list (threads (condition_broadcast k c) t) = lock_list (threads k t)"
  "thr_id (threads (condition_broadcast k c) t) = thr_id (threads k t)"
  "state (threads (condition_broadcast k c) t) =
     (if t \<in> set (wait_list k c) then THREAD_READY else state (threads k t))"
  by (cases c; simp add: condition_broadcast_def set_wait_list_def wait_list_def
        fold_wake_thread)+

lemma suspend_kernel:
  "locks (running_thread_suspend k) = locks k"
  "lock_list (threads (running_thread_suspend k) t) = lock_list (threads k t)"
  "thr_id (threads (running_thread_suspend k) t) = thr_id (threads k t)"
  by (simp_all add: running_thread_suspend_def set_thread_state_def Let_def)

lemma suspend_state:
  "state (threads k (TP k)) \<noteq> THREAD_RUNNING \<Longrightarrow>
   state (threads k t) = THREAD_READY \<Longrightarrow>
   state (threads (running_thread_suspend k) t) = THREAD_READY \<or>
   state (threads (running_thread_suspend k) t) = THREAD_RUNNING"
  by (simp add: running_thread_suspend_def set_thread_state_def Let_def)

lemma force_release_kernel:
  "TP (force_release k l) = TP k"
  "owner (locks (force_release k l) l') = (if l' = l then None else owner (locks k l'))"
  "count (locks (force_release k l) l') = (if l' = l then 0 else count (locks k l'))"
  "cv (locks (force_release k l) l') = (if l' = l then [] else cv (locks k l'))"
  by (simp_all add: force_release_def Let_def broadcast_kernel)

lemma force_release_thread:
  "lock_list (threads (force_release k l) t) =
     (if t = TP k then tl (lock_list (threads k t)) else lock_list (threads k t))"
  "thr_id (threads (force_release k l) t) = thr_id (threads k t)"
  "state (threads (force_release k l) t) =
     (if t \<in> set (cv (locks k l)) then THREAD_READY else state (threads k t))"
  by (simp_all add: force_release_def Let_def broadcast_thread wait_list_def)

lemma fold_force_release_kernel:
  "TP (fold (\<lambda>l k'. force_release k' l) ls k) = TP k"
  "owner (locks (fold (\<lambda>l k'. force_release k' l) ls k) l') =
     (if l' \<in> set ls then None else owner (locks k l'))"
  "count (locks (fold (\<lambda>l k'. force_release k' l) ls k) l') =
     (if l' \<in> set ls then 0 else count (locks k l'))"
  "cv (locks (fold (\<lambda>l k'. force_release k' l) ls k) l') =
     (if l' \<in> set ls then [] else cv (locks k l'))"
  by (induction ls arbitrary: k) (simp_all add: force_release_kernel)

lemma fold_force_release_thread:
  "thr_id (threads (fold (\<lambda>l k'. force_release k' l) ls k) t) = thr_id (threads k t)"
  "lock_list (threads (fold (\<lambda>l k'. force_release k' l) ls k) t) =
     (if t = TP k then drop (length ls) (lock_list (threads k t)) else lock_list (threads k t))"
  by (induction ls arbitrary: k)
     (simp_all add: force_release_kernel force_release_thread drop_Suc)

lemma fold_force_release_state:
  "state (threads (fold (\<lambda>l k'. force_release k' l) ls k) t) =
     (if \<exists>l\<in>set ls. t \<in> set (cv (locks k l)) then THREAD_READY else state (threads k t))"
proof (induction ls arbitrary: k)
  case Nil
  show ?case by simp
next
  case (Cons a ls)
  have "(\<exists>l\<in>set ls. t \<in> set (cv (locks (force_release k a) l))) =
        (\<exists>l\<in>set ls. l \<noteq> a \<and> t \<in> set (cv (locks k l)))"
    by (auto simp: force_release_kernel)
  then show ?case
    using Cons.IH [of "force_release k a"]
    by (auto simp: force_release_thread)
qed

lemma release_all_kernel:
  "TP (release_all k) = TP k"
  "owner (locks (release_all k) l) =
     (if l \<in> set (lock_list (threads k (TP k))) then None else owner (locks k l))"
  "count (locks (release_all k) l) =
     (if l \<in> set (lock_list (threads k (TP k))) then 0 else count (locks k l))"
  "cv (locks (release_all k) l) =
     (if l \<in> set (lock_list (threads k (TP k))) then [] else cv (locks k l))"
  by (simp_all add: release_all_def fold_force_release_kernel)

lemma release_all_thread:
  "thr_id (threads (release_all k) t) = thr_id (threads k t)"
  "lock_list (threads (release_all k) t) = (if t = TP k then [] else lock_list (threads k t))"
  "state (threads (release_all k) t) =
     (if \<exists>l\<in>set (lock_list (threads k (TP k))). t \<in> set (cv (locks k l))
      then THREAD_READY else state (threads k t))"
  by (simp_all add: release_all_def fold_force_release_thread fold_force_release_state)

lemma thread_exit_main:
  "thr_id (threads k (TP k)) = MAIN_TID \<Longrightarrow> thread_exit k = Halts"
  by (simp add: thread_exit_def Let_def release_all_kernel release_all_thread)

lemma thread_exit_other:
  "thr_id (threads k (TP k)) \<noteq> MAIN_TID \<Longrightarrow> thread_exit k = Exits (exit_kernel k)"
  by (simp add: thread_exit_def exit_kernel_def Let_def release_all_kernel release_all_thread
        set_thread_state_def)

lemma exit_kernel_locks:
  "owner (locks (exit_kernel k) l) =
     (if l \<in> set (lock_list (threads k (TP k))) then None else owner (locks k l))"
  "count (locks (exit_kernel k) l) =
     (if l \<in> set (lock_list (threads k (TP k))) then 0 else count (locks k l))"
  "l \<in> set (lock_list (threads k (TP k))) \<Longrightarrow> cv (locks (exit_kernel k) l) = []"
  by (simp_all add: exit_kernel_def suspend_kernel broadcast_kernel set_thread_state_def
        release_all_kernel)

lemma exit_kernel_lock_list:
  "lock_list (threads (exit_kernel k) t) = (if t = TP k then [] else lock_list (threads k t))"
  by (simp add: exit_kernel_def suspend_kernel broadcast_thread set_thread_state_def
        release_all_thread release_all_kernel)

lemma exit_kernel_wakes:
  assumes "l \<in> set (lock_list (threads k (TP k)))" "w \<in> set (cv (locks k l))" "w \<noteq> TP k"
  shows "state (threads (exit_kernel k) w) = THREAD_READY \<or>
         state (threads (exit_kernel k) w) = THREAD_RUNNING"
proof -
  let ?k2 = "set_thread_state (release_all k) (TP k) THREAD_EXITED"
  let ?k3 = "condition_broadcast ?k2 (ChildExit (TP k))"
  have 1: "state (threads (release_all k) w) = THREAD_READY"
    using assms by (auto simp: release_all_thread)
  have 2: "state (threads ?k2 w) = THREAD_READY"
    using 1 assms(3) by (simp add: set_thread_state_def)
  have 3: "state (threads ?k3 w) = THREAD_READY"
    using 2 by (simp add: broadcast_thread)
  have tp: "TP ?k3 = TP k"
    by (simp add: broadcast_kernel set_thread_state_def release_all_kernel)
  have "state (threads ?k3 (TP k)) = THREAD_EXITED \<or> state (threads ?k3 (TP k)) = THREAD_READY"
    by (simp add: broadcast_thread set_thread_state_def)
  then have 4: "state (threads ?k3 (TP ?k3)) \<noteq> THREAD_RUNNING"
    using tp by auto
  show ?thesis
    unfolding exit_kernel_def using suspend_state [OF 4 3] .
qed

lemma fold_wake_ready:
  "ready_list (fold (\<lambda>t k'. wake k' t) ws k) = ready_list k @ ws"
  by (induction ws arbitrary: k) (simp_all add: wake_def)

lemma fold_wake_wait_cond:
  "wait_cond (threads (fold (\<lambda>t k'. wake k' t) ws k) t) =
     (if t \<in> set ws then None else wait_cond (threads k t))"
  by (induction ws arbitrary: k) (auto simp: wake_def)

lemma broadcast_ready:
  "ready_list (condition_broadcast k c) = ready_list k @ wait_list k c"
  by (cases c; simp add: condition_broadcast_def set_wait_list_def wait_list_def
        fold_wake_ready)

lemma released_ready:
  "ready_list (released k l) = ready_list k @ cv (locks k l)"
  by (simp add: released_def broadcast_ready wait_list_def)

lemma force_release_ready:
  "ready_list (force_release k l) = ready_list k @ cv (locks k l)"
  by (simp add: force_release_def Let_def broadcast_ready wait_list_def)

lemma fold_force_release_ready:
  "w \<in> set (ready_list k) \<or> (\<exists>l\<in>set ls. w \<in> set (cv (locks k l))) \<Longrightarrow>
   w \<in> set (ready_list (fold (\<lambda>l k'. force_release k' l) ls k))"
proof (induction ls arbitrary: k)
  case Nil
  then show ?case by simp
next
  case (Cons a ls)
  have "w \<in> set (ready_list (force_release k a)) \<or>
        (\<exists>l\<in>set ls. w \<in> set (cv (locks (force_release k a) l)))"
    using Cons.prems by (auto simp: force_release_ready force_release_kernel)
  then show ?case using Cons.IH [of "force_release k a"] by simp
qed

lemma release_all_ready:
  "l \<in> set (lock_list (threads k (TP k))) \<Longrightarrow> w \<in> set (cv (locks k l)) \<Longrightarrow>
   w \<in> set (ready_list (release_all k))"
  unfolding release_all_def by (rule fold_force_release_ready) blast

lemma suspend_not_running:
  assumes "state (threads k (TP k)) \<noteq> THREAD_RUNNING"
  shows "TP (running_thread_suspend k) # ready_list (running_thread_suspend k) =
           (if ready_list k = [] then [idle_thread k] else ready_list k)"
  using assms
  by (cases "ready_list k") (simp_all add: running_thread_suspend_def set_thread_state_def Let_def)

lemma exit_kernel_readies:
  assumes "l \<in> set (lock_list (threads k (TP k)))" "w \<in> set (cv (locks k l))"
  shows "w \<in> set (TP (exit_kernel k) # ready_list (exit_kernel k))"
proof -
  let ?k2 = "set_thread_state (release_all k) (TP k) THREAD_EXITED"
  let ?k3 = "condition_broadcast ?k2 (ChildExit (TP k))"
  have 1: "w \<in> set (ready_list (release_all k))"
    using assms by (rule release_all_ready)
  have 3: "w \<in> set (ready_list ?k3)"
    using 1 by (simp add: broadcast_ready set_thread_state_def)
  have tp: "TP ?k3 = TP k"
    by (simp add: broadcast_kernel set_thread_state_def release_all_kernel)
  have "state (threads ?k3 (TP k)) = THREAD_EXITED \<or> state (threads ?k3 (TP k)) = THREAD_READY"
    by (simp add: broadcast_thread set_thread_state_def)
  then have 4: "state (threads ?k3 (TP ?k3)) \<noteq> THREAD_RUNNING"
    using tp by auto
  have "TP (running_thread_suspend ?k3) # ready_list (running_thread_suspend ?k3) = ready_list ?k3"
    using suspend_not_running [OF 4] 3 by auto
  then show ?thesis
    unfolding exit_kernel_def using 3 by simp
qed

lemma u32_max: "(0xFFFFFFFF :: u32) = - 1"
  by simp

lemma u32_pos: "(0 < (c :: u32)) = (c \<noteq> 0)"
  by (simp add: word_greater_zero_iff)

lemma u32_succ_pos: "(c :: u32) \<noteq> 0xFFFFFFFF \<Longrightarrow> 0 < c + 1"
proof -
  assume c: "c \<noteq> 0xFFFFFFFF"
  have "c + 1 = 0 \<Longrightarrow> c = - 1"
    by (simp only: eq_neg_iff_add_eq_0)
  then show ?thesis
    using c unfolding u32_pos u32_max by blast
qed

lemma lock_acquire_owned:
  "owner (locks k l) = Some (TP k) \<Longrightarrow>
   lock_acquire k l =
     Returned () (k\<lparr>locks := (locks k)(l := (locks k l)\<lparr>count := count (locks k l) + 1\<rparr>)\<rparr>)"
  by (simp add: lock_acquire_def)

lemma lock_acquire_free:
  "owner (locks k l) = None \<Longrightarrow>
   lock_acquire k l =
     Returned ()
       (k\<lparr>locks := (locks k)(l := (locks k l)\<lparr>owner := Some (TP k), count := 1\<rparr>),
          threads := (threads k)(TP k := (threads k (TP k))
                        \<lparr>lock_list := l # lock_list (threads k (TP k))\<rparr>)\<rparr>)"
  by (simp add: lock_acquire_def)

lemma lock_acquire_held:
  assumes "owner (locks k l) = Some t" "t \<noteq> TP k" "state (threads k (TP k)) = THREAD_RUNNING"
  shows "\<exists>k'. lock_acquire k l = Waits k' \<and> owner (locks k' l') = owner (locks k l') \<and>
           count (locks k' l') = count (locks k l') \<and>
           cv (locks k' l) = cv (locks k l) @ [TP k] \<and>
           (\<forall>u. lock_list (threads k' u) = lock_list (threads k u))"
  using assms
  by (simp add: lock_acquire_def condition_wait_def Let_def suspend_kernel set_wait_list_def
        wait_list_def)

lemma lock_release_not_owner:
  "owner (locks k l) \<noteq> Some (TP k) \<Longrightarrow> lock_release k l = Returned () k"
  by (simp add: lock_release_def)

lemma lock_release_nested:
  "owner (locks k l) = Some (TP k) \<Longrightarrow> count (locks k l) \<noteq> 1 \<Longrightarrow>
   lock_release k l =
     Returned () (k\<lparr>locks := (locks k)(l := (locks k l)\<lparr>count := count (locks k l) - 1\<rparr>)\<rparr>)"
  by (simp add: lock_release_def Let_def u32_pos)

lemma lock_release_last:
  "owner (locks k l) = Some (TP k) \<Longrightarrow> count (locks k l) = 1 \<Longrightarrow>
   l \<in> set (lock_list (threads k (TP k))) \<Longrightarrow>
   lock_release k l = Returned () (released k l)"
  by (simp add: lock_release_def Let_def released_def)

lemma released_kernel:
  "TP (released k l) = TP k"
  "owner (locks (released k l) l') = (if l' = l then None else owner (locks k l'))"
  "count (locks (released k l) l') = (if l' = l then 0 else count (locks k l'))"
  "cv (locks (released k l) l) = []"
  "lock_list (threads (released k l) t) =
     (if t = TP k then remove1 l (lock_list (threads k t)) else lock_list (threads k t))"
  "state (threads (released k l) t) =
     (if t \<in> set (cv (locks k l)) then THREAD_READY else state (threads k t))"
  by (simp_all add: released_def broadcast_kernel broadcast_thread wait_list_def)


lemma lock_inv_other_lock:
  assumes inv: "lock_inv k l"
    and o: "owner (locks k' l) = owner (locks k l)"
    and c: "count (locks k' l) = count (locks k l)"
    and ll: "\<And>t. owner (locks k l) = Some t \<Longrightarrow> l \<in> set (lock_list (threads k t)) \<Longrightarrow>
               l \<in> set (lock_list (threads k' t))"
  shows "lock_inv k' l"
proof (cases "owner (locks k l)")
  case None
  then show ?thesis using inv o c by (simp add: lock_inv_def lock_ok_def)
next
  case (Some a)
  then have "l \<in> set (lock_list (threads k a))"
    using inv by (simp add: lock_inv_def)
  then have "l \<in> set (lock_list (threads k' a))"
    using ll Some by blast
  then show ?thesis using inv o c Some by (simp add: lock_inv_def lock_ok_def)
qed

lemma lock_inv_acquire_free:
  assumes inv: "lock_inv k l" and None: "owner (locks k la) = None"
  shows "\<exists>k'. lock_acquire k la = Returned () k' \<and> lock_inv k' l"
proof -
  let ?k' = "k\<lparr>locks := (locks k)(la := (locks k la)\<lparr>owner := Some (TP k), count := 1\<rparr>),
          threads := (threads k)(TP k := (threads k (TP k))
                        \<lparr>lock_list := la # lock_list (threads k (TP k))\<rparr>)\<rparr>"
  have "lock_inv ?k' l"
  proof (cases "l = la")
    case True
    then show ?thesis by (simp add: lock_inv_def lock_ok_def)
  next
    case False
    show ?thesis
      by (rule lock_inv_other_lock [OF inv]) (use False in auto)
  qed
  then show ?thesis using lock_acquire_free [OF None] by simp
qed

lemma lock_inv_acquire_owned:
  assumes inv: "lock_inv k l" and o: "owner (locks k la) = Some (TP k)"
    and nowrap: "count (locks k la) \<noteq> 0xFFFFFFFF"
  shows "\<exists>k'. lock_acquire k la = Returned () k' \<and> lock_inv k' l"
proof -
  let ?k' = "k\<lparr>locks := (locks k)(la := (locks k la)\<lparr>count := count (locks k la) + 1\<rparr>)\<rparr>"
  have "lock_inv ?k' l"
  proof (cases "l = la")
    case True
    have "l \<in> set (lock_list (threads k (TP k)))"
      using inv o True by (simp add: lock_inv_def)
    then show ?thesis
      using True o u32_succ_pos [OF nowrap] by (simp add: lock_inv_def lock_ok_def)
  next
    case False
    show ?thesis
      by (rule lock_inv_other_lock [OF inv]) (use False in auto)
  qed
  then show ?thesis using lock_acquire_owned [OF o] by simp
qed

lemma lock_inv_acquire:
  assumes inv: "lock_inv k l" and run: "state (threads k (TP k)) = THREAD_RUNNING"
    and nowrap: "count (locks k la) \<noteq> 0xFFFFFFFF"
  shows "\<exists>k'. (lock_acquire k la = Returned () k' \<or> lock_acquire k la = Waits k') \<and>
           lock_inv k' l"
proof (cases "owner (locks k la)")
  case None
  show ?thesis using lock_inv_acquire_free [OF inv None] by blast
next
  case (Some t)
  show ?thesis
  proof (cases "t = TP k")
    case True
    then have o: "owner (locks k la) = Some (TP k)" using Some by simp
    show ?thesis using lock_inv_acquire_owned [OF inv o nowrap] by blast
  next
    case False
    obtain k' where w: "lock_acquire k la = Waits k'"
        and o: "owner (locks k' l) = owner (locks k l)"
        and c: "count (locks k' l) = count (locks k l)"
        and ll: "\<forall>u. lock_list (threads k' u) = lock_list (threads k u)"
      using lock_acquire_held [OF Some False run, of l] by blast
    have "lock_inv k' l"
      by (rule lock_inv_other_lock [OF inv o c]) (simp add: ll)
    with w show ?thesis by blast
  qed
qed

lemma lock_inv_release:
  assumes inv: "lock_inv k l" and invr: "lock_inv k lr"
  shows "\<exists>k'. lock_release k lr = Returned () k' \<and> lock_inv k' l"
proof (cases "owner (locks k lr) = Some (TP k)")
  case False
  show ?thesis using inv lock_release_not_owner [OF False] by simp
next
  case True
  have mem: "lr \<in> set (lock_list (threads k (TP k)))"
    using invr True by (simp add: lock_inv_def)
  have pos: "count (locks k lr) \<noteq> 0"
    using invr True by (simp add: lock_inv_def lock_ok_def u32_pos)
  show ?thesis
  proof (cases "count (locks k lr) = 1")
    case False
    let ?k' = "k\<lparr>locks := (locks k)(lr := (locks k lr)\<lparr>count := count (locks k lr) - 1\<rparr>)\<rparr>"
    have nz: "count (locks k lr) - 1 \<noteq> 0" using False by simp
    have "lock_inv ?k' l"
    proof (cases "l = lr")
      case True
      then show ?thesis using nz mem \<open>owner (locks k lr) = Some (TP k)\<close>
        by (simp add: lock_inv_def lock_ok_def u32_pos)
    next
      case False
      show ?thesis
        by (rule lock_inv_other_lock [OF inv]) (use False in auto)
    qed
    then show ?thesis
      using lock_release_nested [OF True False] by simp
  next
    case one: True
    have "lock_inv (released k lr) l"
    proof (cases "l = lr")
      case True
      then show ?thesis by (simp add: lock_inv_def lock_ok_def released_kernel)
    next
      case False
      show ?thesis
        by (rule lock_inv_other_lock [OF inv]) (use False in \<open>auto simp: released_kernel\<close>)
    qed
    then show ?thesis
      using lock_release_last [OF True one mem] by simp
  qed
qed

lemma lock_inv_exit:
  assumes inv: "lock_inv k l"
  shows "lock_inv (exit_kernel k) l"
proof (cases "l \<in> set (lock_list (threads k (TP k)))")
  case True
  then show ?thesis by (simp add: lock_inv_def lock_ok_def exit_kernel_locks)
next
  case False
  have nt: "owner (locks k l) \<noteq> Some (TP k)"
    using inv False by (auto simp: lock_inv_def)
  show ?thesis
    by (rule lock_inv_other_lock [OF inv])
       (use False nt in \<open>auto simp: exit_kernel_locks exit_kernel_lock_list\<close>)
qed

lemma lock_inv_init: "lock_inv (lock_init k l) l"
  by (simp add: lock_inv_def lock_ok_def lock_init_def)

lemma repeat_acquire_owned:
  "owner (locks k l) = Some (TP k) \<Longrightarrow>
   \<exists>k'. repeat_call n (\<lambda>k. lock_acquire k l) k = Returned () k' \<and>
        owner (locks k' l) = Some (TP k) \<and>
        count (locks k' l) = count (locks k l) + of_nat n \<and>
        TP k' = TP k \<and> threads k' = threads k \<and> cv (locks k' l) = cv (locks k l)"
proof (induction n arbitrary: k)
  case 0
  then show ?case by simp
next
  case (Suc n)
  let ?k1 = "k\<lparr>locks := (locks k)(l := (locks k l)\<lparr>count := count (locks k l) + 1\<rparr>)\<rparr>"
  have o1: "owner (locks ?k1 l) = Some (TP ?k1)" using Suc.prems by simp
  obtain k' where r: "repeat_call n (\<lambda>k. lock_acquire k l) ?k1 = Returned () k'"
      and f: "owner (locks k' l) = Some (TP ?k1)"
         "count (locks k' l) = count (locks ?k1 l) + of_nat n"
         "TP k' = TP ?k1" "threads k' = threads ?k1" "cv (locks k' l) = cv (locks ?k1 l)"
    using Suc.IH [OF o1] by blast
  have "repeat_call (Suc n) (\<lambda>k. lock_acquire k l) k = Returned () k'"
    using r lock_acquire_owned [OF Suc.prems] by simp
  then show ?case using f by (simp add: add.assoc add.commute)
qed

lemma repeat_acquire_free:
  assumes "owner (locks k l) = None" "0 < n"
  shows "\<exists>k'. repeat_call n (\<lambda>k. lock_acquire k l) k = Returned () k' \<and>
        owner (locks k' l) = Some (TP k) \<and> count (locks k' l) = of_nat n \<and>
        TP k' = TP k \<and> l \<in> set (lock_list (threads k' (TP k))) \<and>
        cv (locks k' l) = cv (locks k l)"
proof -
  obtain j where n: "n = Suc j" using assms(2) by (cases n) auto
  let ?k1 = "k\<lparr>locks := (locks k)(l := (locks k l)\<lparr>owner := Some (TP k), count := 1\<rparr>),
          threads := (threads k)(TP k := (threads k (TP k))
                        \<lparr>lock_list := l # lock_list (threads k (TP k))\<rparr>)\<rparr>"
  have o1: "owner (locks ?k1 l) = Some (TP ?k1)" by simp
  obtain k' where r: "repeat_call j (\<lambda>k. lock_acquire k l) ?k1 = Returned () k'"
      and f: "owner (locks k' l) = Some (TP ?k1)"
         "count (locks k' l) = count (locks ?k1 l) + of_nat j"
         "TP k' = TP ?k1" "threads k' = threads ?k1" "cv (locks k' l) = cv (locks ?k1 l)"
    using repeat_acquire_owned [OF o1, of j] by blast
  have "repeat_call n (\<lambda>k. lock_acquire k l) k = Returned () k'"
    using r lock_acquire_free [OF assms(1)] n by simp
  then show ?thesis using f n by simp
qed

lemma u32_pred: "(c :: u32) \<noteq> 0 \<Longrightarrow> unat (c - 1) = unat c - 1"
  by (simp add: unat_minus_one)

lemma repeat_release_partial:
  "owner (locks k l) = Some (TP k) \<Longrightarrow> m < unat (count (locks k l)) \<Longrightarrow>
   \<exists>k'. repeat_call m (\<lambda>k. lock_release k l) k = Returned () k' \<and>
        owner (locks k' l) = Some (TP k) \<and>
        count (locks k' l) = count (locks k l) - of_nat m \<and>
        TP k' = TP k \<and> threads k' = threads k"
proof (induction m arbitrary: k)
  case 0
  then show ?case by simp
next
  case (Suc m)
  let ?c = "count (locks k l)"
  let ?k1 = "k\<lparr>locks := (locks k)(l := (locks k l)\<lparr>count := ?c - 1\<rparr>)\<rparr>"
  have c1: "?c \<noteq> 1" using Suc.prems(2) by auto
  have c0: "?c \<noteq> 0" using Suc.prems(2) by auto
  have o1: "owner (locks ?k1 l) = Some (TP ?k1)" using Suc.prems by simp
  have m1: "m < unat (count (locks ?k1 l))"
    using Suc.prems(2) u32_pred [OF c0] by simp
  obtain k' where r: "repeat_call m (\<lambda>k. lock_release k l) ?k1 = Returned () k'"
      and f: "owner (locks k' l) = Some (TP ?k1)"
         "count (locks k' l) = count (locks ?k1 l) - of_nat m"
         "TP k' = TP ?k1" "threads k' = threads ?k1"
    using Suc.IH [OF o1 m1] by blast
  have "repeat_call (Suc m) (\<lambda>k. lock_release k l) k = Returned () k'"
    using r lock_release_nested [OF Suc.prems(1) c1] by simp
  then show ?case using f by simp
qed

lemma repeat_release_all:
  "owner (locks k l) = Some (TP k) \<Longrightarrow> unat (count (locks k l)) = Suc n \<Longrightarrow>
   l \<in> set (lock_list (threads k (TP k))) \<Longrightarrow>
   \<exists>k'. repeat_call (Suc n) (\<lambda>k. lock_release k l) k = Returned () k' \<and>
        owner (locks k' l) = None \<and> count (locks k' l) = 0 \<and> cv (locks k' l) = [] \<and>
        TP k' = TP k"
proof (induction n arbitrary: k)
  case 0
  have one: "count (locks k l) = 1"
    using 0(2) by (simp add: word_unat_eq_iff)
  show ?case
    using lock_release_last [OF 0(1) one 0(3)] by (simp add: released_kernel)
next
  case (Suc n)
  let ?c = "count (locks k l)"
  let ?k1 = "k\<lparr>locks := (locks k)(l := (locks k l)\<lparr>count := ?c - 1\<rparr>)\<rparr>"
  have c1: "?c \<noteq> 1" using Suc.prems(2) by auto
  have c0: "?c \<noteq> 0" using Suc.prems(2) by auto
  have o1: "owner (locks ?k1 l) = Some (TP ?k1)" using Suc.prems by simp
  have u1: "unat (count (locks ?k1 l)) = Suc n"
    using Suc.prems(2) u32_pred [OF c0] by simp
  have l1: "l \<in> set (lock_list (threads ?k1 (TP ?k1)))" using Suc.prems(3) by simp
  obtain k' where r: "repeat_call (Suc n) (\<lambda>k. lock_release k l) ?k1 = Returned () k'"
      and f: "owner (locks k' l) = None" "count (locks k' l) = 0" "cv (locks k' l) = []"
         "TP k' = TP ?k1"
    using Suc.IH [OF o1 u1 l1] by blast
  have "repeat_call (Suc (Suc n)) (\<lambda>k. lock_release k l) k = Returned () k'"
    using r lock_release_nested [OF Suc.prems(1) c1] by simp
  then show ?case using f by simp
qed

lemma acquire_release_balance:
  assumes free: "owner (locks k l) = None" and mn: "m < n" and n: "n < 2 ^ 32"
  shows "\<exists>k1 k2 k3.
      repeat_call n (\<lambda>k. lock_acquire k l) k = Returned () k1 \<and>
      owner (locks k1 l) = Some (TP k) \<and> count (locks k1 l) = of_nat n \<and>
      repeat_call m (\<lambda>k. lock_release k l) k1 = Returned () k2 \<and>
      owner (locks k2 l) = Some (TP k) \<and> count (locks k2 l) = of_nat (n - m) \<and>
      repeat_call n (\<lambda>k. lock_release k l) k1 = Returned () k3 \<and>
      owner (locks k3 l) = None \<and> count (locks k3 l) = 0"
proof -
  have n0: "0 < n" using mn by simp
  obtain k1 where a: "repeat_call n (\<lambda>k. lock_acquire k l) k = Returned () k1"
      and o1: "owner (locks k1 l) = Some (TP k)" and c1: "count (locks k1 l) = of_nat n"
      and t1: "TP k1 = TP k" and l1: "l \<in> set (lock_list (threads k1 (TP k)))"
    using repeat_acquire_free [OF free n0] by blast
  have un: "unat (count (locks k1 l)) = n"
    using n unfolding c1 by (simp add: unsigned_of_nat take_bit_nat_eq_self)
  have o1': "owner (locks k1 l) = Some (TP k1)" using o1 t1 by simp
  obtain k2 where b: "repeat_call m (\<lambda>k. lock_release k l) k1 = Returned () k2"
      and o2: "owner (locks k2 l) = Some (TP k1)"
      and c2: "count (locks k2 l) = count (locks k1 l) - of_nat m"
    using repeat_release_partial [OF o1', of m] mn un by auto
  have c2': "count (locks k2 l) = of_nat (n - m)"
    using c2 c1 mn by (simp add: of_nat_diff)
  obtain j where j: "n = Suc j" using n0 by (cases n) auto
  have l1': "l \<in> set (lock_list (threads k1 (TP k1)))" using l1 t1 by simp
  obtain k3 where c: "repeat_call (Suc j) (\<lambda>k. lock_release k l) k1 = Returned () k3"
      and o3: "owner (locks k3 l) = None" and c3: "count (locks k3 l) = 0"
    using repeat_release_all [OF o1' _ l1', of j] un j by auto
  show ?thesis
    using a o1 c1 b o2 t1 c2' c o3 c3 j by auto
qed

text \<open>
  Claim C8 as stated fails for the invariant: \<open>count\<close> is a 32-bit unsigned that
  \<open>lock_acquire\<close> increments without a test. After \<open>2^32\<close> acquires of a free lock by
  the thread that runs after boot, the lock has an owner and its count is 0.
\<close>

theorem lock_count_wrap_counterexample:
  "\<exists>k'. repeat_call (2 ^ 32) (\<lambda>k. lock_acquire k 7) boot_kernel = Returned () k' \<and>
        owner (locks k' 7) = Some (TP boot_kernel) \<and> count (locks k' 7) = 0 \<and>
        \<not> lock_ok (locks k' 7)"
proof -
  have free: "owner (locks boot_kernel 7) = None" by (simp add: boot_kernel_def)
  obtain k' where r: "repeat_call (2 ^ 32) (\<lambda>k. lock_acquire k 7) boot_kernel = Returned () k'"
      and o: "owner (locks k' 7) = Some (TP boot_kernel)"
      and c: "count (locks k' 7) = of_nat (2 ^ 32)"
    using repeat_acquire_free [OF free, of "2 ^ 32"] by auto
  have z: "count (locks k' 7) = 0" using c by simp
  have "\<not> lock_ok (locks k' 7)" using o z by (simp add: lock_ok_def)
  with r o z show ?thesis by blast
qed

text \<open>
  Claim C8, amended with the bound of the counter. A lock satisfies \<open>lock_inv\<close> when its
  count is positive exactly when it has an owner, and the owner has it on its lock list.
  The invariant holds of a lock after \<open>lock_init\<close>, and each operation of a running thread
  on any lock keeps it for every lock: \<open>lock_acquire\<close> (which returns, or leaves the
  caller waiting on the lock's condition) as long as the 32-bit count is not at its
  maximum \<open>0xFFFFFFFF\<close>, \<open>lock_release\<close>, and \<open>thread_exit\<close>. A release by a thread
  that is not the owner returns with the kernel state unchanged. When a thread acquires a
  free lock \<open>n\<close> times (\<open>n\<close> below \<open>2^32\<close>), it owns the lock with count \<open>n\<close>; after
  any \<open>m < n\<close> releases it still owns it, with count \<open>n - m\<close>; after \<open>n\<close> releases the
  lock is free. The release that takes the count from 1 to 0 broadcasts the lock's
  condition: the wait list is emptied and its threads are appended, in order, to the ready
  list. While a lock is owned, another running thread that asks for it does not get it:
  it is put on the wait list of the lock's condition, owner and count unchanged. A thread
  other than the main thread that exits leaves every lock of its lock list without owner,
  with count 0 and an empty wait list, and its own lock list empty; every thread that was
  waiting for such a lock has been moved to the ready list (it is on it, or is the thread
  picked from it to run next) and is ready or running. The main thread's exit halts the
  machine.
\<close>

theorem lock_discipline:
  "(lock_inv ka lia \<and> state (threads ka (TP ka)) = THREAD_RUNNING \<and>
      count (locks ka la) \<noteq> 0xFFFFFFFF \<longrightarrow>
        (\<exists>k'. (lock_acquire ka la = Returned () k' \<or> lock_acquire ka la = Waits k') \<and>
              lock_inv k' lia)) \<and>
   (lock_inv kr lir \<and> lock_inv kr lr \<longrightarrow>
        (\<exists>k'. lock_release kr lr = Returned () k' \<and> lock_inv k' lir)) \<and>
   (lock_inv ke lie \<and> thr_id (threads ke (TP ke)) \<noteq> MAIN_TID \<longrightarrow>
        (\<exists>k'. thread_exit ke = Exits k' \<and> lock_inv k' lie)) \<and>
   lock_inv (lock_init ki li) li \<and>
   (owner (locks kn ln) \<noteq> Some (TP kn) \<longrightarrow> lock_release kn ln = Returned () kn) \<and>
   (owner (locks k l) = None \<and> m < n \<and> n < 2 ^ 32 \<longrightarrow>
        (\<exists>k1 k2 k3.
           repeat_call n (\<lambda>k. lock_acquire k l) k = Returned () k1 \<and>
           owner (locks k1 l) = Some (TP k) \<and> count (locks k1 l) = of_nat n \<and>
           repeat_call m (\<lambda>k. lock_release k l) k1 = Returned () k2 \<and>
           owner (locks k2 l) = Some (TP k) \<and> count (locks k2 l) = of_nat (n - m) \<and>
           repeat_call n (\<lambda>k. lock_release k l) k1 = Returned () k3 \<and>
           owner (locks k3 l) = None \<and> count (locks k3 l) = 0)) \<and>
   (owner (locks kb lb) = Some t \<and> t \<noteq> TP kb \<and>
      state (threads kb (TP kb)) = THREAD_RUNNING \<longrightarrow>
        (\<exists>k'. lock_acquire kb lb = Waits k' \<and> owner (locks k' lb) = Some t \<and>
              count (locks k' lb) = count (locks kb lb) \<and>
              cv (locks k' lb) = cv (locks kb lb) @ [TP kb])) \<and>
   (thr_id (threads kx (TP kx)) \<noteq> MAIN_TID \<and> lx \<in> set (lock_list (threads kx (TP kx))) \<longrightarrow>
        (\<exists>k'. thread_exit kx = Exits k' \<and> owner (locks k' lx) = None \<and>
              count (locks k' lx) = 0 \<and> cv (locks k' lx) = [] \<and>
              lock_list (threads k' (TP kx)) = [])) \<and>
   (thr_id (threads kw (TP kw)) \<noteq> MAIN_TID \<and> lw \<in> set (lock_list (threads kw (TP kw))) \<and>
      w \<in> set (cv (locks kw lw)) \<and> w \<noteq> TP kw \<longrightarrow>
        (\<exists>k'. thread_exit kw = Exits k' \<and> w \<in> set (TP k' # ready_list k') \<and>
              (state (threads k' w) = THREAD_READY \<or> state (threads k' w) = THREAD_RUNNING))) \<and>
   (owner (locks kl ll) = Some (TP kl) \<and> count (locks kl ll) = 1 \<and>
      ll \<in> set (lock_list (threads kl (TP kl))) \<longrightarrow>
        (\<exists>k'. lock_release kl ll = Returned () k' \<and> owner (locks k' ll) = None \<and>
              count (locks k' ll) = 0 \<and> cv (locks k' ll) = [] \<and>
              ready_list k' = ready_list kl @ cv (locks kl ll) \<and>
              (\<forall>u\<in>set (cv (locks kl ll)). state (threads k' u) = THREAD_READY))) \<and>
   (thr_id (threads km (TP km)) = MAIN_TID \<longrightarrow> thread_exit km = Halts)"
proof (intro conjI impI)
  assume "lock_inv ka lia \<and> state (threads ka (TP ka)) = THREAD_RUNNING \<and>
      count (locks ka la) \<noteq> 0xFFFFFFFF"
  then show "\<exists>k'. (lock_acquire ka la = Returned () k' \<or> lock_acquire ka la = Waits k') \<and>
              lock_inv k' lia"
    using lock_inv_acquire [of ka lia la] by blast
next
  assume "lock_inv kr lir \<and> lock_inv kr lr"
  then show "\<exists>k'. lock_release kr lr = Returned () k' \<and> lock_inv k' lir"
    using lock_inv_release [of kr lir lr] by blast
next
  assume "lock_inv ke lie \<and> thr_id (threads ke (TP ke)) \<noteq> MAIN_TID"
  then show "\<exists>k'. thread_exit ke = Exits k' \<and> lock_inv k' lie"
    using lock_inv_exit [of ke lie] thread_exit_other [of ke] by blast
next
  show "lock_inv (lock_init ki li) li" by (rule lock_inv_init)
next
  assume "owner (locks kn ln) \<noteq> Some (TP kn)"
  then show "lock_release kn ln = Returned () kn" by (rule lock_release_not_owner)
next
  assume "owner (locks k l) = None \<and> m < n \<and> n < 2 ^ 32"
  then show "\<exists>k1 k2 k3.
           repeat_call n (\<lambda>k. lock_acquire k l) k = Returned () k1 \<and>
           owner (locks k1 l) = Some (TP k) \<and> count (locks k1 l) = of_nat n \<and>
           repeat_call m (\<lambda>k. lock_release k l) k1 = Returned () k2 \<and>
           owner (locks k2 l) = Some (TP k) \<and> count (locks k2 l) = of_nat (n - m) \<and>
           repeat_call n (\<lambda>k. lock_release k l) k1 = Returned () k3 \<and>
           owner (locks k3 l) = None \<and> count (locks k3 l) = 0"
    using acquire_release_balance [of k l m n] by blast
next
  assume h: "owner (locks kb lb) = Some t \<and> t \<noteq> TP kb \<and>
      state (threads kb (TP kb)) = THREAD_RUNNING"
  then show "\<exists>k'. lock_acquire kb lb = Waits k' \<and> owner (locks k' lb) = Some t \<and>
              count (locks k' lb) = count (locks kb lb) \<and>
              cv (locks k' lb) = cv (locks kb lb) @ [TP kb]"
    using lock_acquire_held [of kb lb t lb] by auto
next
  assume h: "thr_id (threads kx (TP kx)) \<noteq> MAIN_TID \<and>
      lx \<in> set (lock_list (threads kx (TP kx)))"
  then have "thread_exit kx = Exits (exit_kernel kx)"
    using thread_exit_other by blast
  then show "\<exists>k'. thread_exit kx = Exits k' \<and> owner (locks k' lx) = None \<and>
              count (locks k' lx) = 0 \<and> cv (locks k' lx) = [] \<and>
              lock_list (threads k' (TP kx)) = []"
    using h by (simp add: exit_kernel_locks exit_kernel_lock_list)
next
  assume h: "thr_id (threads kw (TP kw)) \<noteq> MAIN_TID \<and>
      lw \<in> set (lock_list (threads kw (TP kw))) \<and> w \<in> set (cv (locks kw lw)) \<and> w \<noteq> TP kw"
  then have "thread_exit kw = Exits (exit_kernel kw)"
    using thread_exit_other by blast
  then show "\<exists>k'. thread_exit kw = Exits k' \<and> w \<in> set (TP k' # ready_list k') \<and>
              (state (threads k' w) = THREAD_READY \<or> state (threads k' w) = THREAD_RUNNING)"
    using h exit_kernel_wakes [of lw kw w] exit_kernel_readies [of lw kw w] by blast
next
  assume h: "owner (locks kl ll) = Some (TP kl) \<and> count (locks kl ll) = 1 \<and>
      ll \<in> set (lock_list (threads kl (TP kl)))"
  then have "lock_release kl ll = Returned () (released kl ll)"
    using lock_release_last by blast
  then show "\<exists>k'. lock_release kl ll = Returned () k' \<and> owner (locks k' ll) = None \<and>
              count (locks k' ll) = 0 \<and> cv (locks k' ll) = [] \<and>
              ready_list k' = ready_list kl @ cv (locks kl ll) \<and>
              (\<forall>u\<in>set (cv (locks kl ll)). state (threads k' u) = THREAD_READY)"
    by (simp add: released_kernel released_ready)
next
  assume "thr_id (threads km (TP km)) = MAIN_TID"
  then show "thread_exit km = Halts" by (rule thread_exit_main)
qed

theorem lock_discipline_witness:
  "(\<exists>k'. (lock_acquire example_lock_held 7 = Returned () k' \<or>
          lock_acquire example_lock_held 7 = Waits k') \<and> lock_inv k' 7) \<and>
   (\<exists>k'. lock_release example_lock_held 7 = Returned () k' \<and> lock_inv k' 7) \<and>
   (\<exists>k'. thread_exit example_lock_held = Exits k' \<and> lock_inv k' 7) \<and>
   lock_release (running_thread_suspend example_lock_held) 7 =
     Returned () (running_thread_suspend example_lock_held) \<and>
   (\<exists>k1 k2 k3.
      repeat_call 3 (\<lambda>k. lock_acquire k 7) boot_kernel = Returned () k1 \<and>
      owner (locks k1 7) = Some (TP boot_kernel) \<and> count (locks k1 7) = of_nat 3 \<and>
      repeat_call 1 (\<lambda>k. lock_release k 7) k1 = Returned () k2 \<and>
      owner (locks k2 7) = Some (TP boot_kernel) \<and> count (locks k2 7) = of_nat (3 - 1) \<and>
      repeat_call 3 (\<lambda>k. lock_release k 7) k1 = Returned () k3 \<and>
      owner (locks k3 7) = None \<and> count (locks k3 7) = 0) \<and>
   (\<exists>k'. lock_acquire (running_thread_suspend example_lock_held) 7 = Waits k' \<and>
         owner (locks k' 7) = Some 200 \<and>
         count (locks k' 7) = count (locks (running_thread_suspend example_lock_held) 7) \<and>
         cv (locks k' 7) = cv (locks (running_thread_suspend example_lock_held) 7) @
           [TP (running_thread_suspend example_lock_held)]) \<and>
   (\<exists>k'. thread_exit example_lock_held = Exits k' \<and> owner (locks k' 7) = None \<and>
         count (locks k' 7) = 0 \<and> cv (locks k' 7) = [] \<and>
         lock_list (threads k' (TP example_lock_held)) = []) \<and>
   (\<exists>k'. thread_exit example_lock_held = Exits k' \<and> 201 \<in> set (TP k' # ready_list k') \<and>
         (state (threads k' 201) = THREAD_READY \<or> state (threads k' 201) = THREAD_RUNNING)) \<and>
   (\<exists>k'. lock_release example_lock_once 7 = Returned () k' \<and> owner (locks k' 7) = None \<and>
         count (locks k' 7) = 0 \<and> cv (locks k' 7) = [] \<and>
         ready_list k' = ready_list example_lock_once @ cv (locks example_lock_once 7) \<and>
         (\<forall>u\<in>set (cv (locks example_lock_once 7)). state (threads k' u) = THREAD_READY)) \<and>
   cv (locks example_lock_once 7) = [201] \<and>
   thread_exit boot_kernel = Halts"
proof -
  note T = lock_discipline [where ka = example_lock_held and lia = 7 and la = 7
      and kr = example_lock_held and lir = 7 and lr = 7
      and ke = example_lock_held and lie = 7
      and kn = "running_thread_suspend example_lock_held" and ln = 7
      and k = boot_kernel and l = 7 and m = 1 and n = 3
      and kb = "running_thread_suspend example_lock_held" and lb = 7 and t = 200
      and kx = example_lock_held and lx = 7
      and kw = example_lock_held and lw = 7 and w = 201
      and kl = example_lock_once and ll = 7
      and km = boot_kernel]
  have held: "lock_inv example_lock_held 7 \<and>
      state (threads example_lock_held (TP example_lock_held)) = THREAD_RUNNING \<and>
      count (locks example_lock_held 7) \<noteq> 0xFFFFFFFF \<and>
      thr_id (threads example_lock_held (TP example_lock_held)) \<noteq> MAIN_TID \<and>
      7 \<in> set (lock_list (threads example_lock_held (TP example_lock_held))) \<and>
      201 \<in> set (cv (locks example_lock_held 7)) \<and> 201 \<noteq> TP example_lock_held"
    by code_simp
  have other: "owner (locks (running_thread_suspend example_lock_held) 7) = Some 200 \<and>
      200 \<noteq> TP (running_thread_suspend example_lock_held) \<and>
      state (threads (running_thread_suspend example_lock_held)
        (TP (running_thread_suspend example_lock_held))) = THREAD_RUNNING"
    by code_simp
  have a: "lock_inv example_lock_held 7 \<and>
      state (threads example_lock_held (TP example_lock_held)) = THREAD_RUNNING \<and>
      count (locks example_lock_held 7) \<noteq> 0xFFFFFFFF"
    using held by blast
  have r: "lock_inv example_lock_held 7 \<and> lock_inv example_lock_held 7"
    using held by blast
  have e: "lock_inv example_lock_held 7 \<and>
      thr_id (threads example_lock_held (TP example_lock_held)) \<noteq> MAIN_TID"
    using held by blast
  have n: "owner (locks (running_thread_suspend example_lock_held) 7) \<noteq>
      Some (TP (running_thread_suspend example_lock_held))"
    using other by simp
  have b: "owner (locks boot_kernel 7) = None \<and> (1::nat) < 3 \<and> (3::nat) < 2 ^ 32"
    by (simp add: boot_kernel_def)
  have h: "owner (locks (running_thread_suspend example_lock_held) 7) = Some 200 \<and>
      200 \<noteq> TP (running_thread_suspend example_lock_held) \<and>
      state (threads (running_thread_suspend example_lock_held)
        (TP (running_thread_suspend example_lock_held))) = THREAD_RUNNING"
    by (rule other)
  have x: "thr_id (threads example_lock_held (TP example_lock_held)) \<noteq> MAIN_TID \<and>
      7 \<in> set (lock_list (threads example_lock_held (TP example_lock_held)))"
    using held by blast
  have w: "thr_id (threads example_lock_held (TP example_lock_held)) \<noteq> MAIN_TID \<and>
      7 \<in> set (lock_list (threads example_lock_held (TP example_lock_held))) \<and>
      201 \<in> set (cv (locks example_lock_held 7)) \<and> 201 \<noteq> TP example_lock_held"
    using held by blast
  have m: "thr_id (threads boot_kernel (TP boot_kernel)) = MAIN_TID"
    by code_simp
  have once: "owner (locks example_lock_once 7) = Some (TP example_lock_once) \<and>
      count (locks example_lock_once 7) = 1 \<and>
      7 \<in> set (lock_list (threads example_lock_once (TP example_lock_once)))"
    by code_simp
  have cv1: "cv (locks example_lock_once 7) = [201]"
    by code_simp
  note T2 = T [THEN conjunct2]
  note T3 = T2 [THEN conjunct2]
  note T5 = T3 [THEN conjunct2, THEN conjunct2]
  note T6 = T5 [THEN conjunct2]
  note T7 = T6 [THEN conjunct2]
  note T8 = T7 [THEN conjunct2]
  note T9 = T8 [THEN conjunct2]
  note c1 = T [THEN conjunct1, THEN mp, OF a]
  note c2 = T2 [THEN conjunct1, THEN mp, OF r]
  note c3 = T3 [THEN conjunct1, THEN mp, OF e]
  note c5 = T5 [THEN conjunct1, THEN mp, OF n]
  note c6 = T6 [THEN conjunct1, THEN mp, OF b]
  note c7 = T7 [THEN conjunct1, THEN mp, OF h]
  note c8 = T8 [THEN conjunct1, THEN mp, OF x]
  note T10 = T9 [THEN conjunct2]
  note c9 = T9 [THEN conjunct1, THEN mp, OF w]
  note c10 = T10 [THEN conjunct1, THEN mp, OF once]
  note c11 = T10 [THEN conjunct2, THEN mp, OF m]
  show ?thesis
    by (intro conjI) (rule c1 c2 c3 c5 c6 c7 c8 c9 c10 c11 cv1)+
qed

section \<open>Writing to a KTFS file through its seekable endpoint\<close>








lemma blksz_one_mask: "len AND scast (NOT ((1 :: u32) - 1)) = (len :: u64)"
  by simp















end
